theory Spec2Isabelle
  imports Main "HOL-Library.Word" "HOL-Library.Sublist"
begin

section \<open>JavaScript strings\<close>

text \<open>
  The resizer (\<^verbatim>\<open>lib/ThumbnailingBucket.resizer.ts\<close>) runs on Node.js, where a string is
  a sequence of UTF-16 code units. A code unit is a 16-bit word; \<open>js\<close> turns an ASCII
  literal into such a string.
\<close>

type_synonym code_unit = "16 word"
type_synonym jsstring = "code_unit list"

definition js :: "string \<Rightarrow> jsstring" where
  "js s = map of_char s"

definition full_stop :: code_unit where
  "full_stop = 0x2E"

section \<open>The Key Decoder: \<^verbatim>\<open>pathParts\<close>\<close>

text \<open>
  \<^verbatim>\<open>
  function pathParts(name: string) {
      const groups = /^(.+)\.(.+?)$/.exec(name);
      if (!groups) {
          return [name, ""];
      }
      const [, base, ext] = groups;
      return [base, ext];
  }
  \<close>
  The regular expression has no flags. Without the \<^verbatim>\<open>s\<close> flag the atom \<^verbatim>\<open>.\<close> matches every
  code unit that is not a line terminator (LF, CR, U+2028, U+2029); without the \<^verbatim>\<open>m\<close> flag
  \<^verbatim>\<open>^\<close> and \<^verbatim>\<open>$\<close> match at the two ends of the input only.
\<close>

definition dot :: "code_unit \<Rightarrow> bool" where
  "dot c = (c \<noteq> 0x0A \<and> c \<noteq> 0x0D \<and> c \<noteq> 0x2028 \<and> c \<noteq> 0x2029)"

text \<open>
  The second group \<^verbatim>\<open>(.+?)$\<close> is lazy: it takes one code unit, then asks for the end of the
  input, and takes one more code unit each time the end is not reached.
\<close>

fun ext_loop :: "jsstring \<Rightarrow> jsstring \<Rightarrow> jsstring option" where
  "ext_loop acc [] = Some acc"
| "ext_loop acc (c # cs) = (if dot c then ext_loop (acc @ [c]) cs else None)"

definition match_ext :: "jsstring \<Rightarrow> jsstring option" where
  "match_ext rest =
     (case rest of
        [] \<Rightarrow> None
      | c # cs \<Rightarrow> if dot c then ext_loop [c] cs else None)"

text \<open>
  What follows the first group once it holds the first \<open>n\<close> code units: a literal full
  stop, then the second group up to the end of the input.
\<close>

definition match_after :: "nat \<Rightarrow> jsstring \<Rightarrow> (jsstring \<times> jsstring) option" where
  "match_after n name =
     (case drop n name of
        [] \<Rightarrow> None
      | c # rest \<Rightarrow>
          if c = full_stop
          then (case match_ext rest of
                  None \<Rightarrow> None
                | Some ext \<Rightarrow> Some (take n name, ext))
          else None)"

text \<open>
  The first group \<^verbatim>\<open>(.+)\<close> is greedy: it starts with the longest run of \<^verbatim>\<open>.\<close>-matching code
  units at the start of the input and gives them back one at a time, down to one code
  unit, until the rest of the pattern matches.
\<close>

fun backtrack :: "nat \<Rightarrow> jsstring \<Rightarrow> (jsstring \<times> jsstring) option" where
  "backtrack 0 name = None"
| "backtrack (Suc n) name =
     (case match_after (Suc n) name of
        Some groups \<Rightarrow> Some groups
      | None \<Rightarrow> backtrack n name)"

definition regex_exec :: "jsstring \<Rightarrow> (jsstring \<times> jsstring) option" where
  "regex_exec name = backtrack (length (takeWhile dot name)) name"

definition pathParts :: "jsstring \<Rightarrow> jsstring \<times> jsstring" where
  "pathParts name =
     (case regex_exec name of
        None \<Rightarrow> (name, [])
      | Some (base, ext) \<Rightarrow> (base, ext))"


section \<open>Decoding the notification key\<close>

text \<open>
  \<^verbatim>\<open>
  const key = decodeURIComponent(s3Event.s3.object.key.replace(/\+/g, ' ')); // space is encoded as +
  \<close>
  \<^verbatim>\<open>replace\<close> with the global pattern \<^verbatim>\<open>/\+/g\<close> scans the string from left to right and
  puts a space in the place of every plus sign.
\<close>

datatype error = URIError | AWSError string | SharpError string

definition plus_sign :: code_unit where
  "plus_sign = 0x2B"

definition space :: code_unit where
  "space = 0x20"

definition percent :: code_unit where
  "percent = 0x25"

fun replace_plus :: "jsstring \<Rightarrow> jsstring" where
  "replace_plus [] = []"
| "replace_plus (c # cs) =
     (if c = plus_sign then space # replace_plus cs else c # replace_plus cs)"

text \<open>
  \<^verbatim>\<open>decodeURIComponent\<close> is the operation Decode of ECMA-262 with an empty set of
  preserved escapes. An escape \<^verbatim>\<open>%XX\<close> is one octet; an octet below 128 is one code unit;
  a leading octet with \<open>n\<close> leading one bits (\<open>n\<close> from 2 to 4) is followed by \<open>n - 1\<close>
  escapes of continuation octets, and the octets together must be the well-formed UTF-8
  encoding of a code point, which is appended in UTF-16. Everything else throws
  \<^verbatim>\<open>URIError\<close>.
\<close>

definition hex_digit :: "code_unit \<Rightarrow> nat option" where
  "hex_digit c =
     (if 0x30 \<le> c \<and> c \<le> 0x39 then Some (unat c - 0x30)
      else if 0x41 \<le> c \<and> c \<le> 0x46 then Some (unat c - 0x41 + 10)
      else if 0x61 \<le> c \<and> c \<le> 0x66 then Some (unat c - 0x61 + 10)
      else None)"

definition hex_octet :: "code_unit \<Rightarrow> code_unit \<Rightarrow> nat option" where
  "hex_octet h l =
     (case hex_digit h of
        None \<Rightarrow> None
      | Some a \<Rightarrow> (case hex_digit l of None \<Rightarrow> None | Some b \<Rightarrow> Some (16 * a + b)))"

definition leading_ones :: "nat \<Rightarrow> nat" where
  "leading_ones B =
     (if B < 0x80 then 0 else if B < 0xC0 then 1 else if B < 0xE0 then 2
      else if B < 0xF0 then 3 else if B < 0xF8 then 4 else 5)"

fun continuation :: "nat \<Rightarrow> jsstring \<Rightarrow> (nat list \<times> jsstring) option" where
  "continuation 0 cs = Some ([], cs)"
| "continuation (Suc j) (p # h # l # cs) =
     (if p \<noteq> percent then None
      else case hex_octet h l of
             None \<Rightarrow> None
           | Some B \<Rightarrow>
               if 0x80 \<le> B \<and> B < 0xC0
               then (case continuation j cs of
                       None \<Rightarrow> None
                     | Some (Octets, rest) \<Rightarrow> Some (B # Octets, rest))
               else None)"
| "continuation (Suc j) cs = None"

fun utf8_code_point :: "nat list \<Rightarrow> nat option" where
  "utf8_code_point [b0, b1] =
     (let V = (b0 - 0xC0) * 64 + (b1 - 0x80)
      in if 0x80 \<le> V then Some V else None)"
| "utf8_code_point [b0, b1, b2] =
     (let V = (b0 - 0xE0) * 4096 + (b1 - 0x80) * 64 + (b2 - 0x80)
      in if 0x800 \<le> V \<and> \<not> (0xD800 \<le> V \<and> V \<le> 0xDFFF) then Some V else None)"
| "utf8_code_point [b0, b1, b2, b3] =
     (let V = (b0 - 0xF0) * 262144 + (b1 - 0x80) * 4096 + (b2 - 0x80) * 64 + (b3 - 0x80)
      in if 0x10000 \<le> V \<and> V \<le> 0x10FFFF then Some V else None)"
| "utf8_code_point Octets = None"

definition utf16_encode :: "nat \<Rightarrow> jsstring" where
  "utf16_encode V =
     (if V < 0x10000 then [of_nat V]
      else [of_nat (0xD800 + (V - 0x10000) div 1024), of_nat (0xDC00 + (V - 0x10000) mod 1024)])"

lemma continuation_length:
  "continuation j cs = Some (Octets, rest) \<Longrightarrow> length rest \<le> length cs"
proof (induction j cs arbitrary: Octets rest rule: continuation.induct)
  case (2 j p h l cs)
  then show ?case
    by (fastforce split: if_splits option.splits)
qed simp_all

function Decode :: "jsstring \<Rightarrow> jsstring \<Rightarrow> error + jsstring" where
  "Decode R [] = Inr R"
| "Decode R (C # cs) =
     (if C \<noteq> percent then Decode (R @ [C]) cs
      else case cs of
             h # l # rest \<Rightarrow>
               (case hex_octet h l of
                  None \<Rightarrow> Inl URIError
                | Some B \<Rightarrow>
                    if leading_ones B = 0 then Decode (R @ [of_nat B]) rest
                    else if leading_ones B = 1 \<or> 4 < leading_ones B then Inl URIError
                    else (case continuation (leading_ones B - 1) rest of
                            None \<Rightarrow> Inl URIError
                          | Some (Octets, rest') \<Rightarrow>
                              (case utf8_code_point (B # Octets) of
                                 None \<Rightarrow> Inl URIError
                               | Some V \<Rightarrow> Decode (R @ utf16_encode V) rest')))
           | _ \<Rightarrow> Inl URIError)"
  by pat_completeness auto
termination
  by (relation "measure (\<lambda>(R, cs). length cs)") (auto dest: continuation_length)

definition decodeURIComponent :: "jsstring \<Rightarrow> error + jsstring" where
  "decodeURIComponent encoded = Decode [] encoded"

definition decodeKey :: "jsstring \<Rightarrow> error + jsstring" where
  "decodeKey raw = decodeURIComponent (replace_plus raw)"


section \<open>Template literals and \<^verbatim>\<open>JSON.stringify\<close>\<close>

text \<open>
  The sizes are the numbers 50, 100 and 200; a template literal writes such a number in
  decimal. \<^verbatim>\<open>process.env.DEST_BUCKET\<close> is a string or \<^verbatim>\<open>undefined\<close>, and a template
  literal writes \<^verbatim>\<open>undefined\<close> as the nine letters of that word.
\<close>

definition decimal_digit :: "nat \<Rightarrow> code_unit" where
  "decimal_digit n = of_nat (0x30 + n)"

fun number_to_string :: "nat \<Rightarrow> jsstring" where
  "number_to_string n =
     (if n < 10 then [decimal_digit n]
      else number_to_string (n div 10) @ [decimal_digit (n mod 10)])"

declare number_to_string.simps [simp del]

definition to_string :: "jsstring option \<Rightarrow> jsstring" where
  "to_string v = (case v of None \<Rightarrow> js ''undefined'' | Some s \<Rightarrow> s)"

text \<open>
  One element of the list that the handler builds:
  \<^verbatim>\<open>{ key: destKey, url: `https://${destBucket}.s3.amazonaws.com/${destKey}`, width: size, height: size }\<close>
\<close>

record thumbnail =
  key :: jsstring
  url :: jsstring
  width :: nat
  height :: nat

text \<open>
  \<^verbatim>\<open>JSON.stringify\<close> (ECMA-262, as Node.js 14 implements it) quotes a string with
  QuoteJSONString: the two-character escapes for backspace, tab, line feed, form feed,
  carriage return, the quotation mark and the backslash; \<^verbatim>\<open>\uXXXX\<close> in lower-case
  hexadecimal for the other code units below space and for a surrogate that is not half
  of a pair; every other code unit as it is.
\<close>

definition hex_char :: "nat \<Rightarrow> code_unit" where
  "hex_char n = (if n < 10 then of_nat (0x30 + n) else of_nat (0x61 + (n - 10)))"

definition UnicodeEscape :: "code_unit \<Rightarrow> jsstring" where
  "UnicodeEscape c =
     js [CHR 0x5C, CHR ''u''] @
     [hex_char (unat c div 4096), hex_char (unat c div 256 mod 16),
      hex_char (unat c div 16 mod 16), hex_char (unat c mod 16)]"

definition leading_surrogate :: "code_unit \<Rightarrow> bool" where
  "leading_surrogate c = (0xD800 \<le> c \<and> c \<le> 0xDBFF)"

definition trailing_surrogate :: "code_unit \<Rightarrow> bool" where
  "trailing_surrogate c = (0xDC00 \<le> c \<and> c \<le> 0xDFFF)"

definition quote_unit :: "code_unit \<Rightarrow> jsstring" where
  "quote_unit c =
     (if c = 0x08 then js [CHR 0x5C, CHR ''b'']
      else if c = 0x09 then js [CHR 0x5C, CHR ''t'']
      else if c = 0x0A then js [CHR 0x5C, CHR ''n'']
      else if c = 0x0C then js [CHR 0x5C, CHR ''f'']
      else if c = 0x0D then js [CHR 0x5C, CHR ''r'']
      else if c = 0x22 then js [CHR 0x5C, CHR 0x22]
      else if c = 0x5C then js [CHR 0x5C, CHR 0x5C]
      else if c < 0x20 \<or> leading_surrogate c \<or> trailing_surrogate c then UnicodeEscape c
      else [c])"

fun quote_loop :: "jsstring \<Rightarrow> jsstring" where
  "quote_loop [] = []"
| "quote_loop [c] = quote_unit c"
| "quote_loop (c # c' # cs) =
     (if leading_surrogate c \<and> trailing_surrogate c' then c # c' # quote_loop cs
      else quote_unit c @ quote_loop (c' # cs))"

definition QuoteJSONString :: "jsstring \<Rightarrow> jsstring" where
  "QuoteJSONString v = [0x22] @ quote_loop v @ [0x22]"

fun join :: "jsstring \<Rightarrow> jsstring list \<Rightarrow> jsstring" where
  "join sep [] = []"
| "join sep [x] = x"
| "join sep (x # y # ys) = x @ sep @ join sep (y # ys)"

definition SerializeJSONObject :: "thumbnail \<Rightarrow> jsstring" where
  "SerializeJSONObject t =
     js ''{'' @
     join (js '','')
       [QuoteJSONString (js ''key'') @ js '':'' @ QuoteJSONString (key t),
        QuoteJSONString (js ''url'') @ js '':'' @ QuoteJSONString (url t),
        QuoteJSONString (js ''width'') @ js '':'' @ number_to_string (width t),
        QuoteJSONString (js ''height'') @ js '':'' @ number_to_string (height t)] @
     js ''}''"

definition JSON_stringify :: "thumbnail list \<Rightarrow> jsstring" where
  "JSON_stringify list = js ''['' @ join (js '','') (map SerializeJSONObject list) @ js '']''"

section \<open>The services the handler calls\<close>

text \<open>
  The handler reads the source object with \<^verbatim>\<open>s3.getObject\<close>, resizes it with
  \<^verbatim>\<open>sharp(...).resize(...).toBuffer(...)\<close>, writes with \<^verbatim>\<open>s3.putObject\<close> and logs with
  \<^verbatim>\<open>console.log\<close>. Each call is awaited, so the calls of one invocation form a sequence.
  The model keeps that sequence as a trace of events, each call with its parameters and
  its outcome, in the order in which the calls settle. What a service answers is not
  decided by the handler: the three services are parameters, and each may answer
  depending on everything that happened before (the trace so far), which covers a store
  that changes, an encoder that is not deterministic and a failure at any call.
\<close>

type_synonym bytes = "8 word list"

datatype body = Buffer bytes | Text jsstring

record put_request =
  Bucket :: "jsstring option"
  Key :: jsstring
  Body :: body
  ContentType :: "jsstring option"

record s3_record =
  bucket_name :: jsstring
  object_key :: jsstring

record S3Event =
  Records :: "s3_record list"

datatype event =
    LogEvent S3Event
  | Log jsstring
  | GetObject jsstring jsstring "error + bytes option"
  | Sharp "bytes option" nat "error + bytes \<times> jsstring"
  | PutObject put_request "error option"

record services =
  getObject :: "event list \<Rightarrow> jsstring \<Rightarrow> jsstring \<Rightarrow> error + bytes option"
  toBuffer :: "event list \<Rightarrow> bytes option \<Rightarrow> nat \<Rightarrow> error + bytes \<times> jsstring"
  putObject :: "event list \<Rightarrow> put_request \<Rightarrow> error option"

section \<open>The handler\<close>

text \<open>
  \<^verbatim>\<open>
  for (const s3Event of event.Records) {
      const key = decodeURIComponent(s3Event.s3.object.key.replace(/\+/g, ' '));
      const obj = await s3.getObject({ Bucket: s3Event.s3.bucket.name, Key: key }).promise();
      const [base, ext] = pathParts(key);
      const list = [];
      for (let size of [50, 100, 200]) {
          const out = await sharp(obj.Body! as Buffer).resize({ height: size, width: size })
              .toBuffer({ resolveWithObject: true });
          const destKey = `${base}-${size}x${size}.${out.info.format}`;
          console.log(`${key}: Creating ${destKey}`);
          await s3.putObject({ Bucket: destBucket, Key: destKey, Body: out.data }).promise();
          list.push({ key: destKey, url: `https://${destBucket}.s3.amazonaws.com/${destKey}`,
                      width: size, height: size });
      }
      console.log(`${key}: Creating thumbnails.json`);
      await s3.putObject({ Bucket: destBucket, Key: `${key}.thumbnails.json`,
                           Body: JSON.stringify(list), ContentType: "application/json" }).promise();
  }
  \<close>
  The variable \<^verbatim>\<open>key\<close> of the source is \<open>srcKey\<close> here, since \<open>key\<close> is a field of the
  elements of \<^verbatim>\<open>list\<close>, and \<^verbatim>\<open>size\<close> is \<open>sz\<close>. \<^verbatim>\<open>obj.Body\<close> may be \<^verbatim>\<open>undefined\<close>
  (the \<^verbatim>\<open>!\<close> and the \<^verbatim>\<open>as Buffer\<close> are erased when the file is compiled), so the body
  that is handed to the encoder is optional.
\<close>

definition sizes :: "nat list" where
  "sizes = [50, 100, 200]"

definition destKey_of :: "jsstring \<Rightarrow> nat \<Rightarrow> jsstring \<Rightarrow> jsstring" where
  "destKey_of base sz format =
     base @ js ''-'' @ number_to_string sz @ js ''x'' @ number_to_string sz @ js ''.'' @ format"

definition url_of :: "jsstring option \<Rightarrow> jsstring \<Rightarrow> jsstring" where
  "url_of destBucket destKey =
     js ''https://'' @ to_string destBucket @ js ''.s3.amazonaws.com/'' @ destKey"

definition variant_request :: "jsstring option \<Rightarrow> jsstring \<Rightarrow> bytes \<Rightarrow> put_request" where
  "variant_request destBucket destKey data =
     \<lparr>Bucket = destBucket, Key = destKey, Body = Buffer data, ContentType = None\<rparr>"

definition manifest_request :: "jsstring option \<Rightarrow> jsstring \<Rightarrow> thumbnail list \<Rightarrow> put_request" where
  "manifest_request destBucket srcKey list =
     \<lparr>Bucket = destBucket, Key = srcKey @ js ''.thumbnails.json'',
      Body = Text (JSON_stringify list), ContentType = Some (js ''application/json'')\<rparr>"

text \<open>
  The body of the inner loop, for one size: resize, log, write the variant, push its entry
  to \<^verbatim>\<open>list\<close>. A rejected promise leaves the function at the \<^verbatim>\<open>await\<close>.
\<close>

definition resize_one ::
  "services \<Rightarrow> jsstring option \<Rightarrow> jsstring \<Rightarrow> jsstring \<Rightarrow> bytes option \<Rightarrow> nat \<Rightarrow>
   thumbnail list \<Rightarrow> event list \<Rightarrow> (error + thumbnail list) \<times> event list" where
  "resize_one sv destBucket srcKey base obj_Body sz list tr =
     (let out = toBuffer sv tr obj_Body sz;
          tr1 = tr @ [Sharp obj_Body sz out]
      in (case out of
           Inl e \<Rightarrow> (Inl e, tr1)
         | Inr (data, format) \<Rightarrow>
             (let destKey = destKey_of base sz format;
                  tr2 = tr1 @ [Log (srcKey @ js '': Creating '' @ destKey)];
                  req = variant_request destBucket destKey data;
                  res = putObject sv tr2 req;
                  tr3 = tr2 @ [PutObject req res]
              in (case res of
                    Some e \<Rightarrow> (Inl e, tr3)
                  | None \<Rightarrow>
                      (Inr (list @ [\<lparr>key = destKey, url = url_of destBucket destKey,
                                     width = sz, height = sz\<rparr>]), tr3)))))"

fun sizes_loop ::
  "services \<Rightarrow> jsstring option \<Rightarrow> jsstring \<Rightarrow> jsstring \<Rightarrow> bytes option \<Rightarrow> nat list \<Rightarrow>
   thumbnail list \<Rightarrow> event list \<Rightarrow> (error + thumbnail list) \<times> event list" where
  "sizes_loop sv destBucket srcKey base obj_Body [] list tr = (Inr list, tr)"
| "sizes_loop sv destBucket srcKey base obj_Body (sz # rest) list tr =
     (case resize_one sv destBucket srcKey base obj_Body sz list tr of
        (Inl e, tr') \<Rightarrow> (Inl e, tr')
      | (Inr list', tr') \<Rightarrow> sizes_loop sv destBucket srcKey base obj_Body rest list' tr')"

text \<open>The body of the outer loop, for one record of the batch.\<close>

definition processRecord ::
  "services \<Rightarrow> jsstring option \<Rightarrow> s3_record \<Rightarrow> event list \<Rightarrow> (error + unit) \<times> event list" where
  "processRecord sv destBucket s3Event tr =
     (case decodeKey (object_key s3Event) of
        Inl e \<Rightarrow> (Inl e, tr)
      | Inr srcKey \<Rightarrow>
          let obj = getObject sv tr (bucket_name s3Event) srcKey;
              tr1 = tr @ [GetObject (bucket_name s3Event) srcKey obj]
          in (case obj of
               Inl e \<Rightarrow> (Inl e, tr1)
             | Inr obj_Body \<Rightarrow>
                 (case pathParts srcKey of
                    (base, ext) \<Rightarrow>
                      (case sizes_loop sv destBucket srcKey base obj_Body sizes [] tr1 of
                         (Inl e, tr2) \<Rightarrow> (Inl e, tr2)
                       | (Inr list, tr2) \<Rightarrow>
                           (let tr3 = tr2 @ [Log (srcKey @ js '': Creating thumbnails.json'')];
                                req = manifest_request destBucket srcKey list;
                                res = putObject sv tr3 req;
                                tr4 = tr3 @ [PutObject req res]
                            in (case res of
                                  Some e \<Rightarrow> (Inl e, tr4)
                                | None \<Rightarrow> (Inr (), tr4)))))))"

fun records_loop ::
  "services \<Rightarrow> jsstring option \<Rightarrow> s3_record list \<Rightarrow> event list \<Rightarrow> (error + unit) \<times> event list" where
  "records_loop sv destBucket [] tr = (Inr (), tr)"
| "records_loop sv destBucket (s3Event # rest) tr =
     (case processRecord sv destBucket s3Event tr of
        (Inl e, tr') \<Rightarrow> (Inl e, tr')
      | (Inr u, tr') \<Rightarrow> records_loop sv destBucket rest tr')"

text \<open>
  \<^verbatim>\<open>const destBucket = process.env.DEST_BUCKET!;\<close> reads the environment: the \<^verbatim>\<open>!\<close> is
  a type assertion of TypeScript and is erased when the file is compiled, so an absent
  variable gives \<^verbatim>\<open>undefined\<close>, here \<open>None\<close>. The handler returns the outcome of the
  invocation (\<open>Inl\<close>: the promise is rejected with that error) and the trace.
  \<^verbatim>\<open>console.log(JSON.stringify(event))\<close> is the event \<open>LogEvent\<close>, which keeps the
  logged value itself. \<^verbatim>\<open>AWS.config.logger = console\<close> makes the SDK write a line of its
  own for each call; those lines are not part of the trace.
\<close>

definition handler :: "services \<Rightarrow> jsstring option \<Rightarrow> S3Event \<Rightarrow> (error + unit) \<times> event list" where
  "handler sv DEST_BUCKET event =
     (let destBucket = DEST_BUCKET
      in records_loop sv destBucket (Records event) [LogEvent event])"


section \<open>Reading a trace\<close>

text \<open>The error of a call that failed: the rejection of its promise.\<close>

fun failure :: "event \<Rightarrow> error option" where
  "failure (GetObject b k (Inl e)) = Some e"
| "failure (Sharp b sz (Inl e)) = Some e"
| "failure (PutObject req (Some e)) = Some e"
| "failure x = None"

text \<open>
  The calls that touch the two containers, in the order of the trace, each with what
  identifies it. A fetch is named by its container and key. A write is named by the record
  it belongs to, which is the record of the last fetch: it is the variant of size \<open>sz\<close>
  when it goes to the destination container without a content type, follows a successful
  resize to \<open>sz\<close>, carries the bytes of that resize, and its key is built from the base
  name of the fetched key, \<open>sz\<close> and the format of that resize; it is the manifest when
  it goes to the destination container with content type \<^verbatim>\<open>application/json\<close> and its
  key is the fetched key followed by \<^verbatim>\<open>.thumbnails.json\<close>. Every other write is
  unexpected. The reader keeps the key of the last fetch and the size, bytes and format of
  a resize that has not been written yet.
\<close>

datatype kind = Fetch jsstring jsstring | Variant nat | Manifest | Unexpected

type_synonym reader = "jsstring option \<times> (nat \<times> bytes \<times> jsstring) option"

definition write_kind :: "jsstring option \<Rightarrow> reader \<Rightarrow> put_request \<Rightarrow> kind" where
  "write_kind destBucket rd req =
     (case rd of
        (None, pending) \<Rightarrow> Unexpected
      | (Some srcKey, pending) \<Rightarrow>
          if Bucket req = destBucket
          then (if ContentType req = None
                then (case pending of
                        None \<Rightarrow> Unexpected
                      | Some (sz, data, format) \<Rightarrow>
                          if Key req = destKey_of (fst (pathParts srcKey)) sz format \<and>
                             Body req = Buffer data
                          then Variant sz
                          else Unexpected)
                else if ContentType req = Some (js ''application/json'') \<and>
                        Key req = srcKey @ js ''.thumbnails.json''
                     then Manifest
                     else Unexpected)
          else Unexpected)"

fun observe :: "jsstring option \<Rightarrow> reader \<Rightarrow> event \<Rightarrow> reader \<times> kind list" where
  "observe destBucket rd (LogEvent ev) = (rd, [])"
| "observe destBucket rd (Log m) = (rd, [])"
| "observe destBucket rd (GetObject b srcKey out) = ((Some srcKey, None), [Fetch b srcKey])"
| "observe destBucket rd (Sharp b sz (Inl e)) = ((fst rd, None), [])"
| "observe destBucket rd (Sharp b sz (Inr (data, format))) =
     ((fst rd, Some (sz, data, format)), [])"
| "observe destBucket rd (PutObject req out) = ((fst rd, None), [write_kind destBucket rd req])"

fun classify :: "jsstring option \<Rightarrow> reader \<Rightarrow> event list \<Rightarrow> kind list" where
  "classify destBucket rd [] = []"
| "classify destBucket rd (x # xs) =
     snd (observe destBucket rd x) @ classify destBucket (fst (observe destBucket rd x)) xs"

fun reader_after :: "jsstring option \<Rightarrow> reader \<Rightarrow> event list \<Rightarrow> reader" where
  "reader_after destBucket rd [] = rd"
| "reader_after destBucket rd (x # xs) = reader_after destBucket (fst (observe destBucket rd x)) xs"

text \<open>
  The calls that the batch asks for, record by record in the order of the batch: for each
  record the fetch of its decoded key from its container, its variants of the sizes 50, 100
  and 200, and its manifest. A key that cannot be decoded ends the sequence.
\<close>

definition record_calls :: "jsstring \<Rightarrow> jsstring \<Rightarrow> kind list" where
  "record_calls b srcKey = [Fetch b srcKey, Variant 50, Variant 100, Variant 200, Manifest]"

fun expected_calls :: "s3_record list \<Rightarrow> kind list" where
  "expected_calls [] = []"
| "expected_calls (s3Event # rest) =
     (case decodeKey (object_key s3Event) of
        Inl e \<Rightarrow> []
      | Inr srcKey \<Rightarrow> record_calls (bucket_name s3Event) srcKey @ expected_calls rest)"

text \<open>The keys of the writes of a trace, in order.\<close>

fun written_keys :: "event list \<Rightarrow> jsstring list" where
  "written_keys [] = []"
| "written_keys (PutObject req out # xs) = Key req # written_keys xs"
| "written_keys (x # xs) = written_keys xs"

text \<open>The writes of a trace that carry a content type: the manifests.\<close>

fun manifest_writes :: "event list \<Rightarrow> put_request list" where
  "manifest_writes [] = []"
| "manifest_writes (PutObject req out # xs) =
     (if ContentType req = None then manifest_writes xs else req # manifest_writes xs)"
| "manifest_writes (x # xs) = manifest_writes xs"

section \<open>Example services\<close>

text \<open>
  Services for concrete runs. The source container holds every key but \<^verbatim>\<open>missing.jpg\<close>;
  the encoder answers with one byte and the format \<^verbatim>\<open>jpeg\<close>; a write without a
  container is rejected, as the parameter validation of the AWS SDK does, and so is the
  write of \<^verbatim>\<open>locked-100x100.jpeg\<close>.
\<close>

definition example_services :: services where
  "example_services =
     \<lparr>getObject = (\<lambda>tr b k.
         if k = js ''missing.jpg'' then Inl (AWSError ''NoSuchKey'')
         else Inr (Some [0xFF, 0xD8, 0xFF])),
      toBuffer = (\<lambda>tr obj_Body sz. Inr ([of_nat sz], js ''jpeg'')),
      putObject = (\<lambda>tr req.
         if Bucket req = None then Some (AWSError ''MissingRequiredParameter'')
         else if Key req = js ''locked-100x100.jpeg'' then Some (AWSError ''AccessDenied'')
         else None)\<rparr>"

definition example_record :: "string \<Rightarrow> s3_record" where
  "example_record k = \<lparr>bucket_name = js ''pictures'', object_key = js k\<rparr>"

definition example_batch :: "string list \<Rightarrow> S3Event" where
  "example_batch ks = \<lparr>Records = map example_record ks\<rparr>"

section \<open>Properties of the Key Decoder\<close>

lemma ext_loop_eq:
  "ext_loop acc rest = (if list_all dot rest then Some (acc @ rest) else None)"
  by (induction rest arbitrary: acc) auto

lemma match_ext_eq:
  "match_ext rest = (if rest \<noteq> [] \<and> list_all dot rest then Some rest else None)"
  by (cases rest) (auto simp: match_ext_def ext_loop_eq)

lemma match_after_Some:
  "match_after n name = Some (b, e) \<longleftrightarrow>
     n < length name \<and> name ! n = full_stop \<and> b = take n name \<and> e = drop (Suc n) name
     \<and> e \<noteq> [] \<and> list_all dot e"
proof (cases "drop n name")
  case Nil
  then show ?thesis by (auto simp: match_after_def)
next
  case (Cons c rest)
  then have n: "n < length name" by (cases "n < length name") auto
  from Cons n have c: "c = name ! n" by (metis Cons_nth_drop_Suc list.inject)
  from Cons n have r: "rest = drop (Suc n) name" by (metis Cons_nth_drop_Suc list.inject)
  show ?thesis using Cons n c r by (auto simp: match_after_def match_ext_eq)
qed

lemma match_after_split:
  "match_after n name = Some (b, e) \<Longrightarrow> 1 \<le> n \<Longrightarrow>
   b \<noteq> [] \<and> e \<noteq> [] \<and> name = b @ full_stop # e"
  using id_take_nth_drop [of n name] by (auto simp: match_after_Some)

lemma backtrack_None:
  "backtrack m name = None \<longleftrightarrow> (\<forall>n. 1 \<le> n \<and> n \<le> m \<longrightarrow> match_after n name = None)"
proof (induction m)
  case 0
  show ?case by simp
next
  case (Suc m)
  show ?case
  proof (cases "match_after (Suc m) name")
    case None
    then show ?thesis using Suc by (auto simp: le_Suc_eq)
  next
    case (Some g)
    then show ?thesis by auto
  qed
qed

lemma backtrack_last:
  "1 \<le> n \<Longrightarrow> n \<le> m \<Longrightarrow> match_after n name = Some g \<Longrightarrow>
   (\<forall>k. n < k \<and> k \<le> m \<longrightarrow> match_after k name = None) \<Longrightarrow> backtrack m name = Some g"
proof (induction m)
  case 0
  then show ?case by simp
next
  case (Suc m)
  show ?case
  proof (cases "n = Suc m")
    case True
    with Suc.prems show ?thesis by simp
  next
    case False
    with Suc.prems have "n \<le> m" by simp
    moreover have "match_after (Suc m) name = None" using Suc.prems False by auto
    ultimately show ?thesis using Suc by simp
  qed
qed

text \<open>No full stop with something on both sides: the pattern does not match.\<close>

lemma regex_exec_None:
  assumes "\<not> (\<exists>b e. b \<noteq> [] \<and> e \<noteq> [] \<and> name = b @ full_stop # e)"
  shows "regex_exec name = None"
proof -
  have "match_after n name = None" if "1 \<le> n" for n
  proof (cases "match_after n name")
    case None
    then show ?thesis .
  next
    case (Some g)
    obtain b e where "g = (b, e)" by (cases g)
    with Some that assms show ?thesis using match_after_split by blast
  qed
  then show ?thesis by (simp add: regex_exec_def backtrack_None)
qed

text \<open>
  No line terminator, and the last full stop has something on both sides: the greedy
  first group stops at that full stop.
\<close>

lemma regex_exec_last_dot:
  assumes "b \<noteq> []" "e \<noteq> []" "full_stop \<notin> set e" "list_all dot (b @ full_stop # e)"
  shows "regex_exec (b @ full_stop # e) = Some (b, e)"
proof -
  let ?s = "b @ full_stop # e"
  have tw: "takeWhile dot ?s = ?s" using assms(4) by (simp add: list_all_iff)
  have m: "match_after (length b) ?s = Some (b, e)"
    using assms by (simp add: match_after_Some)
  have later: "match_after k ?s = None" if "length b < k" for k
  proof (cases "match_after k ?s")
    case None
    then show ?thesis .
  next
    case (Some g)
    obtain b' e' where g: "g = (b', e')" by (cases g)
    from Some g have k: "k < length ?s" and d: "?s ! k = full_stop"
      by (simp_all add: match_after_Some)
    from that k have "?s ! k = e ! (k - Suc (length b))" "k - Suc (length b) < length e"
      by (auto simp: nth_append nth_Cons')
    with d assms(3) show ?thesis by (metis nth_mem)
  qed
  have "backtrack (length ?s) ?s = Some (b, e)"
    by (rule backtrack_last [where n = "length b"]) (use assms m later in \<open>auto simp: Suc_le_eq\<close>)
  then show ?thesis by (simp add: regex_exec_def tw)
qed

lemma split_last_dot:
  assumes "full_stop \<in> set (tl s)" "last s \<noteq> full_stop"
  shows "\<exists>b e. b \<noteq> [] \<and> e \<noteq> [] \<and> full_stop \<notin> set e \<and> s = b @ full_stop # e"
proof -
  from assms(1) have ne: "s \<noteq> []" by auto
  then obtain c t where s: "s = c # t" by (cases s) auto
  with assms(1) have "full_stop \<in> set t" by simp
  then obtain u e where t: "t = u @ full_stop # e" "full_stop \<notin> set e"
    by (meson split_list_last)
  have "e \<noteq> []" using assms(2) s t by auto
  then show ?thesis using s t by (intro exI [of _ "c # u"] exI [of _ e]) simp
qed

lemma pathParts_last_dot:
  assumes "full_stop \<in> set (tl s)" "last s \<noteq> full_stop" "list_all dot s"
  shows "\<exists>ext. pathParts s = (fst (pathParts s), ext) \<and> full_stop \<notin> set ext
           \<and> fst (pathParts s) @ [full_stop] @ ext = s"
proof -
  obtain b e where be: "b \<noteq> []" "e \<noteq> []" "full_stop \<notin> set e" "s = b @ full_stop # e"
    using split_last_dot [OF assms(1,2)] by blast
  with assms(3) have "regex_exec s = Some (b, e)" using regex_exec_last_dot by simp
  then have "pathParts s = (b, e)" by (simp add: pathParts_def)
  with be show ?thesis by simp
qed

lemma pathParts_whole:
  assumes "\<not> (\<exists>b e. b \<noteq> [] \<and> e \<noteq> [] \<and> s = b @ full_stop # e)"
  shows "pathParts s = (s, [])"
  using regex_exec_None [OF assms] by (simp add: pathParts_def)

text \<open>
  Claim C2, as amended. For every string \<open>s\<close> that holds no line terminator and whose last
  full stop is neither its first nor its last code unit, the Key Decoder returns
  \<open>(base, ext)\<close> with \<open>base + "." + ext = s\<close> and no full stop in \<open>ext\<close>, which is the
  split at the last full stop of \<open>s\<close>; for every string \<open>s\<close> without a full stop it
  returns \<open>(s, "")\<close>.
\<close>

theorem pathParts_splits_at_last_dot:
  "(full_stop \<in> set (tl s) \<and> last s \<noteq> full_stop \<and> list_all dot s \<longrightarrow>
      (case pathParts s of (base, ext) \<Rightarrow>
         base @ [full_stop] @ ext = s \<and> full_stop \<notin> set ext))
   \<and> (full_stop \<notin> set s \<longrightarrow> pathParts s = (s, []))"
proof (intro conjI impI)
  assume "full_stop \<in> set (tl s) \<and> last s \<noteq> full_stop \<and> list_all dot s"
  then obtain ext where "pathParts s = (fst (pathParts s), ext)" "full_stop \<notin> set ext"
    "fst (pathParts s) @ [full_stop] @ ext = s"
    using pathParts_last_dot by blast
  then show "case pathParts s of (base, ext) \<Rightarrow>
               base @ [full_stop] @ ext = s \<and> full_stop \<notin> set ext"
    by (simp add: case_prod_beta) (metis snd_conv)
next
  assume "full_stop \<notin> set s"
  then have "\<not> (\<exists>b e. b \<noteq> [] \<and> e \<noteq> [] \<and> s = b @ full_stop # e)" by auto
  then show "pathParts s = (s, [])" by (rule pathParts_whole)
qed

text \<open>
  The amended claim C2 at \<^verbatim>\<open>photo.final.jpg\<close>, which splits into \<^verbatim>\<open>photo.final\<close> and
  \<^verbatim>\<open>jpg\<close>, and at \<^verbatim>\<open>noext\<close>.
\<close>

theorem pathParts_splits_at_last_dot_witness:
  "full_stop \<in> set (tl (js ''photo.final.jpg'')) \<and> last (js ''photo.final.jpg'') \<noteq> full_stop
   \<and> list_all dot (js ''photo.final.jpg'')
   \<and> pathParts (js ''photo.final.jpg'') = (js ''photo.final'', js ''jpg'')
   \<and> (case pathParts (js ''photo.final.jpg'') of (base, ext) \<Rightarrow>
         base @ [full_stop] @ ext = js ''photo.final.jpg'' \<and> full_stop \<notin> set ext)
   \<and> full_stop \<notin> set (js ''noext'') \<and> pathParts (js ''noext'') = (js ''noext'', [])"
  using pathParts_splits_at_last_dot [of "js ''photo.final.jpg''"]
    pathParts_splits_at_last_dot [of "js ''noext''"]
  by (simp add: pathParts_def regex_exec_def match_after_def match_ext_def js_def
      full_stop_def dot_def)

text \<open>
  Claim C2 as the specification states it fails. \<^verbatim>\<open>.hidden\<close> holds a full stop and is
  returned whole, so that \<open>base + "." + ext\<close> is \<^verbatim>\<open>.hidden.\<close>; \<^verbatim>\<open>a.b.\<close> is split at its
  first full stop, not its last, and the extension \<^verbatim>\<open>b.\<close> holds a full stop; a key with
  a line feed before \<^verbatim>\<open>b.c\<close> is returned whole.
\<close>

theorem pathParts_claim_counterexample:
  "full_stop \<in> set (js ''.hidden'')
   \<and> pathParts (js ''.hidden'') = (js ''.hidden'', [])
   \<and> js ''.hidden'' @ [full_stop] @ [] \<noteq> js ''.hidden''
   \<and> pathParts (js ''a.b.'') = (js ''a'', js ''b.'')
   \<and> full_stop \<in> set (js ''b.'')
   \<and> full_stop \<in> set (js ''a'' @ [0x0A] @ js ''b.c'')
   \<and> pathParts (js ''a'' @ [0x0A] @ js ''b.c'') = (js ''a'' @ [0x0A] @ js ''b.c'', [])"
  by (simp add: pathParts_def regex_exec_def match_after_def match_ext_def js_def
      full_stop_def dot_def)

section \<open>Properties of the decoding of the notification key\<close>

lemma replace_plus_map:
  "replace_plus raw = map (\<lambda>c. if c = plus_sign then space else c) raw"
  by (induction raw) simp_all

text \<open>
  Claim C8. The raw notification key is decoded by first replacing every plus sign with
  one space and then percent-decoding the result; \<^verbatim>\<open>my+file%20name.jpg\<close> decodes to
  \<^verbatim>\<open>my file name.jpg\<close>.
\<close>

theorem decodeKey_plus_then_percent:
  "decodeKey raw = decodeURIComponent (map (\<lambda>c. if c = 0x2B then 0x20 else c) raw)
   \<and> decodeKey (js ''my+file%20name.jpg'') = Inr (js ''my file name.jpg'')"
proof
  show "decodeKey raw = decodeURIComponent (map (\<lambda>c. if c = 0x2B then 0x20 else c) raw)"
    by (simp add: decodeKey_def replace_plus_map plus_sign_def space_def cong: if_cong)
  show "decodeKey (js ''my+file%20name.jpg'') = Inr (js ''my file name.jpg'')"
    by (simp add: decodeKey_def decodeURIComponent_def js_def plus_sign_def space_def
        percent_def hex_octet_def hex_digit_def leading_ones_def)
qed

section \<open>The trace of a run\<close>

text \<open>
  The functions of the handler take the trace so far and return it extended. The rules below
  say, for each function, which outcomes it can have and which events it adds in each.
\<close>

lemma resize_one_new:
  assumes "resize_one sv d k base b sz list tr = (res, tr')"
  obtains (sharp) e where
      "toBuffer sv tr b sz = Inl e" "res = Inl e" "tr' = tr @ [Sharp b sz (Inl e)]"
  | (put_failed) data fmt e where
      "toBuffer sv tr b sz = Inr (data, fmt)"
      "putObject sv (tr @ [Sharp b sz (Inr (data, fmt)),
                           Log (k @ js '': Creating '' @ destKey_of base sz fmt)])
         (variant_request d (destKey_of base sz fmt) data) = Some e"
      "res = Inl e"
      "tr' = tr @ [Sharp b sz (Inr (data, fmt)),
                  Log (k @ js '': Creating '' @ destKey_of base sz fmt),
                  PutObject (variant_request d (destKey_of base sz fmt) data) (Some e)]"
  | (put_ok) data fmt where
      "toBuffer sv tr b sz = Inr (data, fmt)"
      "putObject sv (tr @ [Sharp b sz (Inr (data, fmt)),
                           Log (k @ js '': Creating '' @ destKey_of base sz fmt)])
         (variant_request d (destKey_of base sz fmt) data) = None"
      "res = Inr (list @ [\<lparr>key = destKey_of base sz fmt,
                            url = url_of d (destKey_of base sz fmt),
                            width = sz, height = sz\<rparr>])"
      "tr' = tr @ [Sharp b sz (Inr (data, fmt)),
                  Log (k @ js '': Creating '' @ destKey_of base sz fmt),
                  PutObject (variant_request d (destKey_of base sz fmt) data) None]"
  using assms
  by (auto simp: resize_one_def Let_def split: sum.splits option.splits prod.splits)

lemma resize_one_ext:
  "resize_one sv d k base b sz list tr = (res, tr') \<Longrightarrow> \<exists>new. tr' = tr @ new"
  by (erule resize_one_new) auto

lemma sizes_loop_ext:
  "sizes_loop sv d k base b szs list tr = (res, tr') \<Longrightarrow> \<exists>new. tr' = tr @ new"
proof (induction szs arbitrary: list tr)
  case Nil
  then show ?case by simp
next
  case (Cons sz rest)
  obtain r1 t1 where r1: "resize_one sv d k base b sz list tr = (r1, t1)"
    by (cases "resize_one sv d k base b sz list tr")
  then obtain n1 where t1: "t1 = tr @ n1" using resize_one_ext by blast
  show ?case
  proof (cases r1)
    case (Inl e)
    with Cons.prems r1 t1 show ?thesis by auto
  next
    case (Inr l)
    with Cons.prems r1 have "sizes_loop sv d k base b rest l t1 = (res, tr')" by simp
    from Cons.IH [OF this] t1 show ?thesis by auto
  qed
qed

lemma sizes_loop_Cons_new:
  assumes "sizes_loop sv d k base b (sz # rest) list tr = (res, tr @ new)"
  obtains (stop) e where
      "resize_one sv d k base b sz list tr = (Inl e, tr @ new)" "res = Inl e"
  | (go) l n1 n2 where
      "resize_one sv d k base b sz list tr = (Inr l, tr @ n1)"
      "sizes_loop sv d k base b rest l (tr @ n1) = (res, (tr @ n1) @ n2)"
      "new = n1 @ n2"
proof -
  obtain r1 t1 where r1: "resize_one sv d k base b sz list tr = (r1, t1)"
    by (cases "resize_one sv d k base b sz list tr")
  then obtain n1 where t1: "t1 = tr @ n1" using resize_one_ext by blast
  show thesis
  proof (cases r1)
    case (Inl e)
    with assms r1 show ?thesis by (intro stop [of e]) auto
  next
    case (Inr l)
    with assms r1 have s: "sizes_loop sv d k base b rest l t1 = (res, tr @ new)" by simp
    then obtain n2 where "tr @ new = t1 @ n2" using sizes_loop_ext by blast
    with t1 s r1 Inr show ?thesis by (intro go [of l n1 n2]) auto
  qed
qed

lemma processRecord_new:
  assumes "processRecord sv d r tr = (res, tr')"
  obtains (decode) e where
      "decodeKey (object_key r) = Inl e" "res = Inl e" "tr' = tr"
  | (fetch) k e where
      "decodeKey (object_key r) = Inr k" "getObject sv tr (bucket_name r) k = Inl e"
      "res = Inl e" "tr' = tr @ [GetObject (bucket_name r) k (Inl e)]"
  | (loop) k body e n where
      "decodeKey (object_key r) = Inr k" "getObject sv tr (bucket_name r) k = Inr body"
      "sizes_loop sv d k (fst (pathParts k)) body sizes []
         (tr @ [GetObject (bucket_name r) k (Inr body)])
       = (Inl e, (tr @ [GetObject (bucket_name r) k (Inr body)]) @ n)"
      "res = Inl e" "tr' = tr @ GetObject (bucket_name r) k (Inr body) # n"
  | (manifest) k body list n e where
      "decodeKey (object_key r) = Inr k" "getObject sv tr (bucket_name r) k = Inr body"
      "sizes_loop sv d k (fst (pathParts k)) body sizes []
         (tr @ [GetObject (bucket_name r) k (Inr body)])
       = (Inr list, (tr @ [GetObject (bucket_name r) k (Inr body)]) @ n)"
      "res = Inl e"
      "tr' = tr @ GetObject (bucket_name r) k (Inr body) # n @
               [Log (k @ js '': Creating thumbnails.json''),
                PutObject (manifest_request d k list) (Some e)]"
  | (complete) k body list n where
      "decodeKey (object_key r) = Inr k" "getObject sv tr (bucket_name r) k = Inr body"
      "sizes_loop sv d k (fst (pathParts k)) body sizes []
         (tr @ [GetObject (bucket_name r) k (Inr body)])
       = (Inr list, (tr @ [GetObject (bucket_name r) k (Inr body)]) @ n)"
      "res = Inr ()"
      "tr' = tr @ GetObject (bucket_name r) k (Inr body) # n @
               [Log (k @ js '': Creating thumbnails.json''),
                PutObject (manifest_request d k list) None]"
proof (cases "decodeKey (object_key r)")
  case (Inl e)
  with assms show ?thesis by (intro decode [of e]) (auto simp: processRecord_def)
next
  case k: (Inr k)
  show ?thesis
  proof (cases "getObject sv tr (bucket_name r) k")
    case (Inl e)
    with assms k show ?thesis by (intro fetch [of k e]) (auto simp: processRecord_def)
  next
    case body: (Inr body)
    let ?t1 = "tr @ [GetObject (bucket_name r) k (Inr body)]"
    obtain r2 t2 where s: "sizes_loop sv d k (fst (pathParts k)) body sizes [] ?t1 = (r2, t2)"
      by (cases "sizes_loop sv d k (fst (pathParts k)) body sizes [] ?t1")
    then obtain n where t2: "t2 = ?t1 @ n" using sizes_loop_ext by blast
    show ?thesis
    proof (cases r2)
      case (Inl e)
      with assms k body s t2 show ?thesis
        by (intro loop [of k body e n])
          (auto simp: processRecord_def Let_def split: prod.splits)
    next
      case (Inr list)
      show ?thesis
      proof (cases "putObject sv (t2 @ [Log (k @ js '': Creating thumbnails.json'')])
                 (manifest_request d k list)")
        case None
        with Inr assms k body s t2 show ?thesis
          by (intro complete [of k body list n])
            (auto simp: processRecord_def Let_def split: prod.splits)
      next
        case (Some e)
        with Inr assms k body s t2 show ?thesis
          by (intro manifest [of k body list n e])
            (auto simp: processRecord_def Let_def split: prod.splits)
      qed
    qed
  qed
qed

lemma processRecord_ext:
  "processRecord sv d r tr = (res, tr') \<Longrightarrow> \<exists>new. tr' = tr @ new"
  by (erule processRecord_new) auto

lemma processRecord_shape:
  assumes "processRecord sv d r tr = (res, tr @ new)"
  obtains (decode) e where
      "decodeKey (object_key r) = Inl e" "res = Inl e" "new = []"
  | (fetch) k e where
      "decodeKey (object_key r) = Inr k" "getObject sv tr (bucket_name r) k = Inl e"
      "res = Inl e" "new = [GetObject (bucket_name r) k (Inl e)]"
  | (loop) k body e n where
      "decodeKey (object_key r) = Inr k" "getObject sv tr (bucket_name r) k = Inr body"
      "sizes_loop sv d k (fst (pathParts k)) body sizes []
         (tr @ [GetObject (bucket_name r) k (Inr body)])
       = (Inl e, (tr @ [GetObject (bucket_name r) k (Inr body)]) @ n)"
      "res = Inl e" "new = GetObject (bucket_name r) k (Inr body) # n"
  | (manifest) k body list n e where
      "decodeKey (object_key r) = Inr k" "getObject sv tr (bucket_name r) k = Inr body"
      "sizes_loop sv d k (fst (pathParts k)) body sizes []
         (tr @ [GetObject (bucket_name r) k (Inr body)])
       = (Inr list, (tr @ [GetObject (bucket_name r) k (Inr body)]) @ n)"
      "res = Inl e"
      "new = GetObject (bucket_name r) k (Inr body) # n @
               [Log (k @ js '': Creating thumbnails.json''),
                PutObject (manifest_request d k list) (Some e)]"
  | (complete) k body list n where
      "decodeKey (object_key r) = Inr k" "getObject sv tr (bucket_name r) k = Inr body"
      "sizes_loop sv d k (fst (pathParts k)) body sizes []
         (tr @ [GetObject (bucket_name r) k (Inr body)])
       = (Inr list, (tr @ [GetObject (bucket_name r) k (Inr body)]) @ n)"
      "res = Inr ()"
      "new = GetObject (bucket_name r) k (Inr body) # n @
               [Log (k @ js '': Creating thumbnails.json''),
                PutObject (manifest_request d k list) None]"
  using assms
proof (cases rule: processRecord_new)
  case (decode e)
  then show ?thesis using that(1) by simp
next
  case (fetch k e)
  then show ?thesis using that(2) by simp
next
  case (loop k body e n)
  then show ?thesis using that(3) by simp
next
  case (manifest k body list n e)
  then show ?thesis using that(4) by simp
next
  case (complete k body list n)
  then show ?thesis using that(5) by simp
qed

lemma records_loop_ext:
  "records_loop sv d rs tr = (res, tr') \<Longrightarrow> \<exists>new. tr' = tr @ new"
proof (induction rs arbitrary: tr)
  case Nil
  then show ?case by simp
next
  case (Cons r rest)
  obtain r1 t1 where r1: "processRecord sv d r tr = (r1, t1)"
    by (cases "processRecord sv d r tr")
  then obtain n1 where t1: "t1 = tr @ n1" using processRecord_ext by blast
  show ?case
  proof (cases r1)
    case (Inl e)
    with Cons.prems r1 t1 show ?thesis by auto
  next
    case (Inr u)
    with Cons.prems r1 have "records_loop sv d rest t1 = (res, tr')" by simp
    from Cons.IH [OF this] t1 show ?thesis by auto
  qed
qed

lemma records_loop_Cons_new:
  assumes "records_loop sv d (r # rest) tr = (res, tr @ new)"
  obtains (stop) e where
      "processRecord sv d r tr = (Inl e, tr @ new)" "res = Inl e"
  | (go) n1 n2 where
      "processRecord sv d r tr = (Inr (), tr @ n1)"
      "records_loop sv d rest (tr @ n1) = (res, (tr @ n1) @ n2)"
      "new = n1 @ n2"
proof -
  obtain r1 t1 where r1: "processRecord sv d r tr = (r1, t1)"
    by (cases "processRecord sv d r tr")
  then obtain n1 where t1: "t1 = tr @ n1" using processRecord_ext by blast
  show thesis
  proof (cases r1)
    case (Inl e)
    with assms r1 show ?thesis by (intro stop [of e]) auto
  next
    case (Inr u)
    with assms r1 have s: "records_loop sv d rest t1 = (res, tr @ new)" by simp
    then obtain n2 where "tr @ new = t1 @ n2" using records_loop_ext by blast
    with t1 s r1 Inr show ?thesis by (intro go [of n1 n2]) auto
  qed
qed

lemma records_loop_append:
  "records_loop sv d (rs1 @ rs2) tr =
     (case records_loop sv d rs1 tr of
        (Inl e, t) \<Rightarrow> (Inl e, t)
      | (Inr u, t) \<Rightarrow> records_loop sv d rs2 t)"
  by (induction rs1 arbitrary: tr) (auto split: prod.splits sum.splits)

subsection \<open>The events of the inner loop and of a record\<close>

text \<open>
  What the inner loop adds to the trace: resizes of the fetched body to the sizes of the
  loop, log lines, and for each successful resize one write of its variant.
\<close>

lemma sizes_loop_events:
  assumes "sizes_loop sv d k base b szs list tr = (res, tr @ new)"
  shows "(\<forall>x \<in> set new.
            (\<exists>sz out. sz \<in> set szs \<and> x = Sharp b sz out) \<or> (\<exists>m. x = Log m) \<or>
            (\<exists>sz data fmt out. sz \<in> set szs \<and> Sharp b sz (Inr (data, fmt)) \<in> set new \<and>
               x = PutObject (variant_request d (destKey_of base sz fmt) data) out))
       \<and> (\<forall>b' sz data fmt. Sharp b' sz (Inr (data, fmt)) \<in> set new \<longrightarrow>
            (\<exists>out. PutObject (variant_request d (destKey_of base sz fmt) data) out \<in> set new))"
  using assms
proof (induction szs arbitrary: list tr new)
  case Nil
  then show ?case by simp
next
  case (Cons sz rest)
  from Cons.prems show ?case
  proof (cases rule: sizes_loop_Cons_new)
    case (stop e)
    from stop(1) show ?thesis by (cases rule: resize_one_new) auto
  next
    case (go l n1 n2)
    note IH = Cons.IH [OF go(2)]
    from go(1) obtain data fmt out where
      n1: "n1 = [Sharp b sz (Inr (data, fmt)),
                  Log (k @ js '': Creating '' @ destKey_of base sz fmt),
                  PutObject (variant_request d (destKey_of base sz fmt) data) out]"
      by (cases rule: resize_one_new) auto
      show ?thesis
      proof (intro conjI ballI allI impI)
        fix x assume "x \<in> set new"
        then consider "x \<in> set n1" | "x \<in> set n2" using go(3) by auto
        then show "(\<exists>sz' out. sz' \<in> set (sz # rest) \<and> x = Sharp b sz' out) \<or> (\<exists>m. x = Log m) \<or>
            (\<exists>sz' data fmt out. sz' \<in> set (sz # rest) \<and> Sharp b sz' (Inr (data, fmt)) \<in> set new \<and>
               x = PutObject (variant_request d (destKey_of base sz' fmt) data) out)"
        proof cases
          case 1
          with n1 consider "x = Sharp b sz (Inr (data, fmt))"
            | "x = Log (k @ js '': Creating '' @ destKey_of base sz fmt)"
            | "x = PutObject (variant_request d (destKey_of base sz fmt) data) out" by auto
          then show ?thesis
          proof cases
            case 1
            then show ?thesis by simp
          next
            case 2
            then show ?thesis by simp
          next
            case 3
            have "sz \<in> set (sz # rest) \<and> Sharp b sz (Inr (data, fmt)) \<in> set new \<and>
               x = PutObject (variant_request d (destKey_of base sz fmt) data) out"
              using 3 n1 go(3) by simp
            then show ?thesis by blast
          qed
        next
          case 2
          with IH have "(\<exists>sz out. sz \<in> set rest \<and> x = Sharp b sz out) \<or> (\<exists>m. x = Log m) \<or>
            (\<exists>sz data fmt out. sz \<in> set rest \<and> Sharp b sz (Inr (data, fmt)) \<in> set n2 \<and>
               x = PutObject (variant_request d (destKey_of base sz fmt) data) out)" by blast
          then consider sz' out' where "sz' \<in> set rest" "x = Sharp b sz' out'"
            | m where "x = Log m"
            | sz' data' fmt' out' where "sz' \<in> set rest" "Sharp b sz' (Inr (data', fmt')) \<in> set n2"
               "x = PutObject (variant_request d (destKey_of base sz' fmt') data') out'" by blast
          then show ?thesis
          proof cases
            case 1
            then show ?thesis by auto
          next
            case 2
            then show ?thesis by simp
          next
            case 3
            have "sz' \<in> set (sz # rest) \<and> Sharp b sz' (Inr (data', fmt')) \<in> set new \<and>
               x = PutObject (variant_request d (destKey_of base sz' fmt') data') out'"
              using 3 go(3) by simp
            then show ?thesis by blast
          qed
        qed
      next
        fix b' sz' data' fmt' assume "Sharp b' sz' (Inr (data', fmt')) \<in> set new"
        then consider "Sharp b' sz' (Inr (data', fmt')) \<in> set n1" | "Sharp b' sz' (Inr (data', fmt')) \<in> set n2"
          using go(3) by auto
        then show "\<exists>out. PutObject (variant_request d (destKey_of base sz' fmt') data') out \<in> set new"
        proof cases
          case 1
          with n1 go(3) show ?thesis by auto
        next
          case 2
          with IH obtain out' where
            "PutObject (variant_request d (destKey_of base sz' fmt') data') out' \<in> set n2"
            by blast
          with go(3) show ?thesis by auto
        qed
      qed
  qed
qed

lemma sizes_loop_write:
  assumes "sizes_loop sv d k base b szs list tr = (res, tr @ n)" "PutObject req out \<in> set n"
  shows "\<exists>sz data fmt. sz \<in> set szs \<and> Sharp b sz (Inr (data, fmt)) \<in> set n \<and>
           req = variant_request d (destKey_of base sz fmt) data"
proof -
  from sizes_loop_events [OF assms(1)] assms(2)
  have "(\<exists>sz out'. sz \<in> set szs \<and> PutObject req out = Sharp b sz out') \<or>
        (\<exists>m. PutObject req out = Log m) \<or>
        (\<exists>sz data fmt out'. sz \<in> set szs \<and> Sharp b sz (Inr (data, fmt)) \<in> set n \<and>
           PutObject req out = PutObject (variant_request d (destKey_of base sz fmt) data) out')"
    by blast
  then show ?thesis by auto
qed

lemma sizes_loop_resize:
  assumes "sizes_loop sv d k base b szs list tr = (res, tr @ n)" "Sharp b' sz out \<in> set n"
  shows "b' = b \<and> sz \<in> set szs"
proof -
  from sizes_loop_events [OF assms(1)] assms(2)
  have "(\<exists>sz' out'. sz' \<in> set szs \<and> Sharp b' sz out = Sharp b sz' out') \<or>
        (\<exists>m. Sharp b' sz out = Log m) \<or>
        (\<exists>sz' data fmt out'. sz' \<in> set szs \<and> Sharp b sz' (Inr (data, fmt)) \<in> set n \<and>
           Sharp b' sz out = PutObject (variant_request d (destKey_of base sz' fmt) data) out')"
    by blast
  then show ?thesis by auto
qed

lemma sizes_loop_no_fetch:
  assumes "sizes_loop sv d k base b szs list tr = (res, tr @ n)"
  shows "GetObject b' k' out \<notin> set n"
proof
  assume "GetObject b' k' out \<in> set n"
  with sizes_loop_events [OF assms]
  have "(\<exists>sz' out'. sz' \<in> set szs \<and> GetObject b' k' out = Sharp b sz' out') \<or>
        (\<exists>m. GetObject b' k' out = Log m) \<or>
        (\<exists>sz' data fmt out'. sz' \<in> set szs \<and> Sharp b sz' (Inr (data, fmt)) \<in> set n \<and>
           GetObject b' k' out = PutObject (variant_request d (destKey_of base sz' fmt) data) out')"
    by blast
  then show False by auto
qed

lemma processRecord_write:
  assumes "processRecord sv d r tr = (res, tr @ new)" "PutObject req out \<in> set new"
  shows "\<exists>k. decodeKey (object_key r) = Inr k \<and>
           ((\<exists>sz data fmt body. sz \<in> set sizes \<and> Sharp body sz (Inr (data, fmt)) \<in> set new \<and>
               req = variant_request d (destKey_of (fst (pathParts k)) sz fmt) data)
            \<or> (\<exists>list. req = manifest_request d k list))"
  using assms(1)
proof (cases rule: processRecord_shape)
  case (decode e)
  with assms(2) show ?thesis by simp
next
  case (fetch k e)
  with assms(2) show ?thesis by simp
next
  case (loop k body e n)
  with assms(2) have "PutObject req out \<in> set n" by simp
  from sizes_loop_write [OF loop(3) this] loop(1,5) show ?thesis by auto
next
  case (manifest k body list n e)
  with assms(2) consider "PutObject req out \<in> set n" | "req = manifest_request d k list" by auto
  then show ?thesis
  proof cases
    case 1
    from sizes_loop_write [OF manifest(3) this] manifest(1,5) show ?thesis by auto
  next
    case 2
    with manifest(1) show ?thesis by auto
  qed
next
  case (complete k body list n)
  with assms(2) consider "PutObject req out \<in> set n" | "req = manifest_request d k list" by auto
  then show ?thesis
  proof cases
    case 1
    from sizes_loop_write [OF complete(3) this] complete(1,5) show ?thesis by auto
  next
    case 2
    with complete(1) show ?thesis by auto
  qed
qed

lemma processRecord_resize:
  assumes "processRecord sv d r tr = (res, tr @ new)" "Sharp body sz (Inr (data, fmt)) \<in> set new"
  shows "\<exists>k. decodeKey (object_key r) = Inr k \<and> sz \<in> set sizes \<and>
           (\<exists>out. PutObject (variant_request d (destKey_of (fst (pathParts k)) sz fmt) data) out \<in> set new)"
proof -
  have *: "sz \<in> set sizes \<and>
           (\<exists>out. PutObject (variant_request d (destKey_of (fst (pathParts k)) sz fmt) data) out \<in> set n)"
    if "sizes_loop sv d k (fst (pathParts k)) b sizes [] t = (res', t @ n)"
       "Sharp body sz (Inr (data, fmt)) \<in> set n" for k b t n res'
    using sizes_loop_events [OF that(1)] sizes_loop_resize [OF that] that(2) by blast
  from assms(1) show ?thesis
  proof (cases rule: processRecord_shape)
    case (decode e)
    with assms(2) show ?thesis by simp
  next
    case (fetch k e)
    with assms(2) show ?thesis by simp
  next
    case (loop k body' e n)
    with assms(2) have "Sharp body sz (Inr (data, fmt)) \<in> set n" by simp
    from * [OF loop(3) this] loop(1,5) show ?thesis by auto
  next
    case (manifest k body' list n e)
    with assms(2) have "Sharp body sz (Inr (data, fmt)) \<in> set n" by simp
    from * [OF manifest(3) this] manifest(1,5) show ?thesis by auto
  next
    case (complete k body' list n)
    with assms(2) have "Sharp body sz (Inr (data, fmt)) \<in> set n" by simp
    from * [OF complete(3) this] complete(1,5) show ?thesis by auto
  qed
qed

lemma processRecord_fetch:
  assumes "processRecord sv d r tr = (res, tr @ new)"
  shows "(decodeKey (object_key r) = Inr k \<longrightarrow>
            new \<noteq> [] \<and> hd new = GetObject (bucket_name r) k (getObject sv tr (bucket_name r) k))
       \<and> (GetObject b k' out \<in> set new \<longrightarrow> b = bucket_name r \<and> decodeKey (object_key r) = Inr k')"
  using assms
proof (cases rule: processRecord_shape)
  case (decode e)
  then show ?thesis by simp
next
  case (fetch k0 e)
  then show ?thesis by auto
next
  case (loop k0 body e n)
  with sizes_loop_no_fetch [OF loop(3)] show ?thesis by auto
next
  case (manifest k0 body list n e)
  with sizes_loop_no_fetch [OF manifest(3)] show ?thesis by auto
next
  case (complete k0 body list n)
  with sizes_loop_no_fetch [OF complete(3)] show ?thesis by auto
qed



lemma destKey_of_sizes:
  "destKey_of b sz f = b @ js ''-'' @ number_to_string sz @ js ''x'' @ number_to_string sz @ js ''.'' @ f"
  by (simp add: destKey_of_def)

lemma written_keys_Nil:
  "(\<And>req out. PutObject req out \<notin> set xs) \<Longrightarrow> written_keys xs = []"
proof (induction xs)
  case Nil
  show ?case by simp
next
  case (Cons x xs)
  then show ?case by (cases x) auto
qed

lemma manifest_writes_Nil:
  "(\<And>req out. PutObject req out \<in> set xs \<Longrightarrow> ContentType req = None) \<Longrightarrow> manifest_writes xs = []"
proof (induction xs)
  case Nil
  show ?case by simp
next
  case (Cons x xs)
  then show ?case by (cases x) auto
qed

subsection \<open>Failed calls\<close>

text \<open>
  A failed call ends the function it is in: in the events that a loop or a record adds,
  only the last one can be a failed call, and then its error is the outcome.
\<close>

lemma sizes_loop_failures:
  assumes "sizes_loop sv d k base b szs list tr = (res, tr @ new)"
  shows "case res of
           Inr l \<Rightarrow> (\<forall>x\<in>set new. failure x = None)
         | Inl e \<Rightarrow> (\<exists>pre x. new = pre @ [x] \<and> (\<forall>y\<in>set pre. failure y = None) \<and> failure x = Some e)"
  using assms
proof (induction szs arbitrary: list tr new)
  case Nil
  then show ?case by auto
next
  case (Cons sz rest)
  from Cons.prems show ?case
  proof (cases rule: sizes_loop_Cons_new)
    case (stop e)
    from stop(1) show ?thesis
    proof (cases rule: resize_one_new)
      case (sharp e')
      with stop show ?thesis by simp
    next
      case (put_failed data fmt e')
      with stop show ?thesis
        by (auto intro!: exI [of _ "[Sharp b sz (Inr (data, fmt)),
                  Log (k @ js '': Creating '' @ destKey_of base sz fmt)]"])
    next
      case (put_ok data fmt)
      with stop show ?thesis by simp
    qed
  next
    case (go l n1 n2)
    note IH = Cons.IH [OF go(2)]
    from go(1) have c1: "\<forall>x\<in>set n1. failure x = None"
      by (cases rule: resize_one_new) auto
    show ?thesis
    proof (cases res)
      case (Inr l')
      with IH c1 go(3) show ?thesis by auto
    next
      case (Inl e)
      with IH obtain pre x where "n2 = pre @ [x]" "\<forall>y\<in>set pre. failure y = None" "failure x = Some e"
        by auto
      with c1 go(3) Inl show ?thesis by (auto intro!: exI [of _ "n1 @ pre"])
    qed
  qed
qed

lemma processRecord_failures:
  assumes "processRecord sv d r tr = (res, tr @ new)"
  shows "case res of
           Inr u \<Rightarrow> (\<forall>x\<in>set new. failure x = None)
         | Inl e \<Rightarrow> (new = [] \<and> decodeKey (object_key r) = Inl e) \<or>
                    (\<exists>pre x. new = pre @ [x] \<and> (\<forall>y\<in>set pre. failure y = None) \<and> failure x = Some e)"
  using assms
proof (cases rule: processRecord_new)
  case (decode e)
  then show ?thesis by simp
next
  case (fetch k e)
  then show ?thesis by simp
next
  case (loop k body e n)
  from sizes_loop_failures [OF loop(3)] obtain pre x where
    "n = pre @ [x]" "\<forall>y\<in>set pre. failure y = None" "failure x = Some e" by auto
  with loop show ?thesis
    by (auto intro!: exI [of _ "GetObject (bucket_name r) k (Inr body) # pre"])
next
  case (manifest k body list n e)
  from sizes_loop_failures [OF manifest(3)] have "\<forall>x\<in>set n. failure x = None" by simp
  with manifest show ?thesis
    by (auto intro!: exI [of _ "GetObject (bucket_name r) k (Inr body) # n @
               [Log (k @ js '': Creating thumbnails.json'')]"])
next
  case (complete k body list n)
  from sizes_loop_failures [OF complete(3)] have "\<forall>x\<in>set n. failure x = None" by simp
  with complete show ?thesis by auto
qed

lemma records_loop_failures:
  assumes "records_loop sv d rs tr = (res, tr @ new)"
  shows "case res of
           Inr u \<Rightarrow> (\<forall>x\<in>set new. failure x = None)
         | Inl e \<Rightarrow> (\<forall>x\<in>set new. failure x = None) \<or>
                    (\<exists>pre x. new = pre @ [x] \<and> (\<forall>y\<in>set pre. failure y = None) \<and> failure x = Some e)"
  using assms
proof (induction rs arbitrary: tr new)
  case Nil
  then show ?case by auto
next
  case (Cons r rest)
  from Cons.prems show ?case
  proof (cases rule: records_loop_Cons_new)
    case (stop e)
    from processRecord_failures [OF stop(1)] stop(2) show ?thesis by auto
  next
    case (go n1 n2)
    from processRecord_failures [OF go(1)] have c1: "\<forall>x\<in>set n1. failure x = None" by simp
    note IH = Cons.IH [OF go(2)]
    show ?thesis
    proof (cases res)
      case (Inr u)
      with IH c1 go(3) show ?thesis by auto
    next
      case (Inl e)
      with IH consider "\<forall>x\<in>set n2. failure x = None"
        | pre x where "n2 = pre @ [x]" "\<forall>y\<in>set pre. failure y = None" "failure x = Some e"
        by auto
      then show ?thesis
      proof cases
        case 1
        with c1 go(3) Inl show ?thesis by auto
      next
        case 2
        with c1 go(3) Inl show ?thesis by (auto intro!: exI [of _ "n1 @ pre"])
      qed
    qed
  qed
qed

lemma failed_call_is_last:
  assumes "xs = pre @ [x]" "\<forall>y\<in>set pre. failure y = None" "xs = pre' @ x' # post" "failure x' = Some e"
  shows "post = [] \<and> x' = x"
proof (cases post rule: rev_cases)
  case Nil
  with assms show ?thesis by simp
next
  case (snoc ys y)
  with assms(1,3) have "pre = pre' @ x' # ys"
    by (metis append.assoc append_Cons butlast_snoc)
  with assms(2,4) show ?thesis by simp
qed

lemma only_last_call_fails:
  assumes "(\<forall>z\<in>set xs. failure z = None) \<or>
           (\<exists>pre0 x0. xs = pre0 @ [x0] \<and> (\<forall>z\<in>set pre0. failure z = None))"
    and "xs = pre @ x # y # post"
  shows "failure x = None"
  using assms(1)
proof
  assume "\<forall>z\<in>set xs. failure z = None"
  with assms(2) show ?thesis by simp
next
  assume "\<exists>pre0 x0. xs = pre0 @ [x0] \<and> (\<forall>z\<in>set pre0. failure z = None)"
  then obtain pre0 x0 where p: "xs = pre0 @ [x0]" "\<forall>z\<in>set pre0. failure z = None" by blast
  from p(1) have "butlast xs = pre0" by simp
  moreover from assms(2) have "butlast xs = pre @ x # butlast (y # post)"
    by (simp add: butlast_append)
  ultimately have "x \<in> set pre0" by (metis in_set_conv_decomp)
  with p(2) show ?thesis by simp
qed

subsection \<open>The order of the calls\<close>

text \<open>
  The calls of one record, read from any state of the reader, are the calls that the batch
  asks for that record: the fetch of its decoded key from its container, its variants of
  the sizes 50, 100 and 200 and its manifest, or a prefix of them when a call fails. Over
  a batch they follow each other in the order of the records.
\<close>

lemma classify_append:
  "classify d rd (xs @ ys) = classify d rd xs @ classify d (reader_after d rd xs) ys"
  by (induction xs arbitrary: rd) simp_all

lemma reader_after_append:
  "reader_after d rd (xs @ ys) = reader_after d (reader_after d rd xs) ys"
  by (induction xs arbitrary: rd) simp_all

lemma write_kind_Manifest:
  "write_kind d (Some k, p) (manifest_request d k list) = Manifest"
  by (simp add: write_kind_def manifest_request_def)

lemma sizes_loop_classify:
  assumes "sizes_loop sv d k (fst (pathParts k)) b szs list tr = (res, tr @ new)"
  shows "fst (reader_after d (Some k, p) new) = Some k \<and>
         (case res of
            Inr l \<Rightarrow> classify d (Some k, p) new = map Variant szs
          | Inl e \<Rightarrow> prefix (classify d (Some k, p) new) (map Variant szs))"
  using assms
proof (induction szs arbitrary: list tr new p)
  case Nil
  then show ?case by auto
next
  case (Cons sz rest)
  from Cons.prems show ?case
  proof (cases rule: sizes_loop_Cons_new)
    case (stop e)
    from stop(1) show ?thesis
      by (cases rule: resize_one_new)
         (use stop(2) in \<open>auto simp: variant_request_def write_kind_def\<close>)
  next
    case (go l n1 n2)
    from go(1) have n1: "classify d (Some k, p) n1 = [Variant sz]"
      "reader_after d (Some k, p) n1 = (Some k, None)"
      by (cases rule: resize_one_new; auto simp: variant_request_def write_kind_def)+
    from Cons.IH [OF go(2), of None] n1 go(3) show ?thesis
      by (auto simp: classify_append reader_after_append split: sum.splits)
  qed
qed

lemma processRecord_classify:
  assumes "processRecord sv d r tr = (res, tr @ new)"
  shows "(case decodeKey (object_key r) of
            Inl e \<Rightarrow> classify d rd new = [] \<and> res = Inl e
          | Inr k \<Rightarrow> prefix (classify d rd new) (record_calls (bucket_name r) k) \<and>
                     (res = Inr () \<longrightarrow> classify d rd new = record_calls (bucket_name r) k))"
  using assms
proof (cases rule: processRecord_new)
  case (decode e)
  then show ?thesis by simp
next
  case (fetch k e)
  then show ?thesis by (simp add: record_calls_def)
next
  case (loop k body e n)
  from sizes_loop_classify [OF loop(3), of None] loop(4)
  have "prefix (classify d (Some k, None) n) (map Variant sizes @ [Manifest])"
    by (auto intro: prefix_prefix)
  with loop(1,4,5) show ?thesis
    by (simp add: record_calls_def sizes_def)
next
  case (manifest k body list n e)
  from sizes_loop_classify [OF manifest(3), of None] manifest(1,4,5) show ?thesis
    by (cases "reader_after d (Some k, None) n")
       (simp add: record_calls_def sizes_def classify_append write_kind_Manifest)
next
  case (complete k body list n)
  from sizes_loop_classify [OF complete(3), of None] complete(1,4,5) show ?thesis
    by (cases "reader_after d (Some k, None) n")
       (simp add: record_calls_def sizes_def classify_append write_kind_Manifest)
qed

lemma records_loop_classify:
  assumes "records_loop sv d rs tr = (res, tr @ new)"
  shows "prefix (classify d rd new) (expected_calls rs) \<and>
         (res = Inr () \<longrightarrow>
            classify d rd new = expected_calls rs \<and> length (expected_calls rs) = 5 * length rs)"
  using assms
proof (induction rs arbitrary: tr new rd)
  case Nil
  then show ?case by auto
next
  case (Cons r rest)
  from Cons.prems show ?case
  proof (cases rule: records_loop_Cons_new)
    case (stop e)
    from processRecord_classify [OF stop(1), of rd] stop(2) show ?thesis
      by (auto split: sum.splits)
  next
    case (go n1 n2)
    from processRecord_classify [OF go(1), of rd] obtain k where
      k: "decodeKey (object_key r) = Inr k" "classify d rd n1 = record_calls (bucket_name r) k"
      by (auto split: sum.splits)
    with Cons.IH [OF go(2), of "reader_after d rd n1"] go(3) show ?thesis
      by (simp add: classify_append record_calls_def)
  qed
qed

subsection \<open>A record processed to its end\<close>

text \<open>
  The trace of a record that is processed to its end.
\<close>

lemma sizes_loop_Cons_Inr:
  assumes "sizes_loop sv d k base b (sz # rest) list tr = (Inr l, tr')"
  shows "\<exists>data fmt.
           toBuffer sv tr b sz = Inr (data, fmt) \<and>
           sizes_loop sv d k base b rest
             (list @ [\<lparr>key = destKey_of base sz fmt, url = url_of d (destKey_of base sz fmt),
                        width = sz, height = sz\<rparr>])
             (tr @ [Sharp b sz (Inr (data, fmt)),
                    Log (k @ js '': Creating '' @ destKey_of base sz fmt),
                    PutObject (variant_request d (destKey_of base sz fmt) data) None])
           = (Inr l, tr')"
proof -
  obtain r1 t1 where r1: "resize_one sv d k base b sz list tr = (r1, t1)"
    by (cases "resize_one sv d k base b sz list tr")
  from r1 show ?thesis
  proof (cases rule: resize_one_new)
    case (sharp e)
    with assms r1 show ?thesis by simp
  next
    case (put_failed data fmt e)
    with assms r1 show ?thesis by simp
  next
    case (put_ok data fmt)
    with assms r1 show ?thesis by simp
  qed
qed

lemma processRecord_Inr:
  assumes "processRecord sv d r tr = (Inr (), tr')"
  shows "\<exists>k body d50 f50 d100 f100 d200 f200.
     decodeKey (object_key r) = Inr k \<and>
     tr' = tr @
       [GetObject (bucket_name r) k (Inr body),
        Sharp body 50 (Inr (d50, f50)),
        Log (k @ js '': Creating '' @ destKey_of (fst (pathParts k)) 50 f50),
        PutObject (variant_request d (destKey_of (fst (pathParts k)) 50 f50) d50) None,
        Sharp body 100 (Inr (d100, f100)),
        Log (k @ js '': Creating '' @ destKey_of (fst (pathParts k)) 100 f100),
        PutObject (variant_request d (destKey_of (fst (pathParts k)) 100 f100) d100) None,
        Sharp body 200 (Inr (d200, f200)),
        Log (k @ js '': Creating '' @ destKey_of (fst (pathParts k)) 200 f200),
        PutObject (variant_request d (destKey_of (fst (pathParts k)) 200 f200) d200) None,
        Log (k @ js '': Creating thumbnails.json''),
        PutObject (manifest_request d k
          [\<lparr>key = destKey_of (fst (pathParts k)) 50 f50,
             url = url_of d (destKey_of (fst (pathParts k)) 50 f50), width = 50, height = 50\<rparr>,
           \<lparr>key = destKey_of (fst (pathParts k)) 100 f100,
             url = url_of d (destKey_of (fst (pathParts k)) 100 f100), width = 100, height = 100\<rparr>,
           \<lparr>key = destKey_of (fst (pathParts k)) 200 f200,
             url = url_of d (destKey_of (fst (pathParts k)) 200 f200), width = 200, height = 200\<rparr>])
          None]"
  using assms
proof (cases rule: processRecord_new)
  case (complete k body list n)
  let ?base = "fst (pathParts k)"
  from complete(3) have s0: "sizes_loop sv d k ?base body [50, 100, 200] []
      (tr @ [GetObject (bucket_name r) k (Inr body)])
    = (Inr list, (tr @ [GetObject (bucket_name r) k (Inr body)]) @ n)"
    by (simp add: sizes_def)
  from sizes_loop_Cons_Inr [OF s0] obtain d50 f50 where s1:
    "sizes_loop sv d k ?base body [100, 200]
       ([] @ [\<lparr>key = destKey_of ?base 50 f50, url = url_of d (destKey_of ?base 50 f50),
                width = 50, height = 50\<rparr>])
       ((tr @ [GetObject (bucket_name r) k (Inr body)]) @
        [Sharp body 50 (Inr (d50, f50)),
         Log (k @ js '': Creating '' @ destKey_of ?base 50 f50),
         PutObject (variant_request d (destKey_of ?base 50 f50) d50) None])
     = (Inr list, (tr @ [GetObject (bucket_name r) k (Inr body)]) @ n)"
    by blast
  from sizes_loop_Cons_Inr [OF s1] obtain d100 f100 where s2:
    "sizes_loop sv d k ?base body [200]
       (([] @ [\<lparr>key = destKey_of ?base 50 f50, url = url_of d (destKey_of ?base 50 f50),
                width = 50, height = 50\<rparr>]) @
        [\<lparr>key = destKey_of ?base 100 f100, url = url_of d (destKey_of ?base 100 f100),
                width = 100, height = 100\<rparr>])
       (((tr @ [GetObject (bucket_name r) k (Inr body)]) @
        [Sharp body 50 (Inr (d50, f50)),
         Log (k @ js '': Creating '' @ destKey_of ?base 50 f50),
         PutObject (variant_request d (destKey_of ?base 50 f50) d50) None]) @
        [Sharp body 100 (Inr (d100, f100)),
         Log (k @ js '': Creating '' @ destKey_of ?base 100 f100),
         PutObject (variant_request d (destKey_of ?base 100 f100) d100) None])
     = (Inr list, (tr @ [GetObject (bucket_name r) k (Inr body)]) @ n)"
    by blast
  from sizes_loop_Cons_Inr [OF s2] obtain d200 f200 where s3:
    "sizes_loop sv d k ?base body []
       ((([] @ [\<lparr>key = destKey_of ?base 50 f50, url = url_of d (destKey_of ?base 50 f50),
                width = 50, height = 50\<rparr>]) @
        [\<lparr>key = destKey_of ?base 100 f100, url = url_of d (destKey_of ?base 100 f100),
                width = 100, height = 100\<rparr>]) @
        [\<lparr>key = destKey_of ?base 200 f200, url = url_of d (destKey_of ?base 200 f200),
                width = 200, height = 200\<rparr>])
       ((((tr @ [GetObject (bucket_name r) k (Inr body)]) @
        [Sharp body 50 (Inr (d50, f50)),
         Log (k @ js '': Creating '' @ destKey_of ?base 50 f50),
         PutObject (variant_request d (destKey_of ?base 50 f50) d50) None]) @
        [Sharp body 100 (Inr (d100, f100)),
         Log (k @ js '': Creating '' @ destKey_of ?base 100 f100),
         PutObject (variant_request d (destKey_of ?base 100 f100) d100) None]) @
        [Sharp body 200 (Inr (d200, f200)),
         Log (k @ js '': Creating '' @ destKey_of ?base 200 f200),
         PutObject (variant_request d (destKey_of ?base 200 f200) d200) None])
     = (Inr list, (tr @ [GetObject (bucket_name r) k (Inr body)]) @ n)"
    by blast
  from s3 have list: "list =
        [\<lparr>key = destKey_of ?base 50 f50, url = url_of d (destKey_of ?base 50 f50),
                width = 50, height = 50\<rparr>,
        \<lparr>key = destKey_of ?base 100 f100, url = url_of d (destKey_of ?base 100 f100),
                width = 100, height = 100\<rparr>,
        \<lparr>key = destKey_of ?base 200 f200, url = url_of d (destKey_of ?base 200 f200),
                width = 200, height = 200\<rparr>]"
    and n: "n = [Sharp body 50 (Inr (d50, f50)),
         Log (k @ js '': Creating '' @ destKey_of ?base 50 f50),
         PutObject (variant_request d (destKey_of ?base 50 f50) d50) None,
         Sharp body 100 (Inr (d100, f100)),
         Log (k @ js '': Creating '' @ destKey_of ?base 100 f100),
         PutObject (variant_request d (destKey_of ?base 100 f100) d100) None,
         Sharp body 200 (Inr (d200, f200)),
         Log (k @ js '': Creating '' @ destKey_of ?base 200 f200),
         PutObject (variant_request d (destKey_of ?base 200 f200) d200) None]"
    by simp_all
  show ?thesis
    apply (rule exI [of _ k], rule exI [of _ body])
    apply (rule exI [of _ d50], rule exI [of _ f50])
    apply (rule exI [of _ d100], rule exI [of _ f100])
    apply (rule exI [of _ d200], rule exI [of _ f200])
    using complete(1,5) list n by simp
qed simp_all

subsection \<open>Running the handler on the example services\<close>

text \<open>
  The definitions that the simplifier unfolds to run the handler on the example services.
\<close>

lemmas run_defs =
  handler_def example_services_def example_record_def example_batch_def processRecord_def decodeKey_def
  decodeURIComponent_def js_def percent_def plus_sign_def space_def hex_octet_def hex_digit_def
  leading_ones_def pathParts_def regex_exec_def match_after_def match_ext_def dot_def
  full_stop_def sizes_def resize_one_def Let_def variant_request_def manifest_request_def
  destKey_of_def url_of_def to_string_def number_to_string.simps decimal_digit_def
  record_calls_def write_kind_def

lemmas json_defs = js_def number_to_string.simps decimal_digit_def
  JSON_stringify_def SerializeJSONObject_def QuoteJSONString_def quote_unit_def
  leading_surrogate_def trailing_surrogate_def

lemma example_missing:
  "processRecord example_services d (example_record ''missing.jpg'') tr
     = (Inl (AWSError ''NoSuchKey''),
        tr @ [GetObject (js ''pictures'') (js ''missing.jpg'') (Inl (AWSError ''NoSuchKey''))])"
  by (simp add: processRecord_def example_services_def example_record_def Let_def
      decodeKey_def decodeURIComponent_def js_def percent_def plus_sign_def space_def)

section \<open>The manifest\<close>

text \<open>
  Claim C1. For every record that is processed to its end, the manifest is the last write
  of the record, after the variants of the sizes 50, 100 and 200 in that order. It is
  stored at key \<open>srcKey + ".thumbnails.json"\<close> in the destination container with
  content type \<^verbatim>\<open>application/json\<close>, and its body is the JSON text of an array with
  exactly one entry per variant, in the order 50, 100, 200; each entry has the fields
  \<open>key\<close>, \<open>url\<close>, \<open>width\<close> and \<open>height\<close>, and both \<open>width\<close> and \<open>height\<close> are
  the size of that variant.
\<close>

theorem manifest_written:
  assumes "processRecord sv destBucket r tr = (Inr (), tr')"
  shows "\<exists>srcKey body d50 f50 d100 f100 d200 f200.
     decodeKey (object_key r) = Inr srcKey \<and>
     (let base = fst (pathParts srcKey);
          k50 = base @ js ''-50x50.'' @ f50;
          k100 = base @ js ''-100x100.'' @ f100;
          k200 = base @ js ''-200x200.'' @ f200
      in tr' = tr @
       [GetObject (bucket_name r) srcKey (Inr body),
        Sharp body 50 (Inr (d50, f50)),
        Log (srcKey @ js '': Creating '' @ k50),
        PutObject \<lparr>Bucket = destBucket, Key = k50, Body = Buffer d50, ContentType = None\<rparr> None,
        Sharp body 100 (Inr (d100, f100)),
        Log (srcKey @ js '': Creating '' @ k100),
        PutObject \<lparr>Bucket = destBucket, Key = k100, Body = Buffer d100, ContentType = None\<rparr> None,
        Sharp body 200 (Inr (d200, f200)),
        Log (srcKey @ js '': Creating '' @ k200),
        PutObject \<lparr>Bucket = destBucket, Key = k200, Body = Buffer d200, ContentType = None\<rparr> None,
        Log (srcKey @ js '': Creating thumbnails.json''),
        PutObject
          \<lparr>Bucket = destBucket,
           Key = srcKey @ js ''.thumbnails.json'',
           Body = Text (JSON_stringify
             [\<lparr>key = k50, url = js ''https://'' @ to_string destBucket @ js ''.s3.amazonaws.com/'' @ k50,
               width = 50, height = 50\<rparr>,
              \<lparr>key = k100, url = js ''https://'' @ to_string destBucket @ js ''.s3.amazonaws.com/'' @ k100,
               width = 100, height = 100\<rparr>,
              \<lparr>key = k200, url = js ''https://'' @ to_string destBucket @ js ''.s3.amazonaws.com/'' @ k200,
               width = 200, height = 200\<rparr>]),
           ContentType = Some (js ''application/json'')\<rparr>
          None])"
proof -
  have n: "number_to_string 50 = js ''50''" "number_to_string 100 = js ''100''"
    "number_to_string 200 = js ''200''"
    by (simp_all add: number_to_string.simps js_def decimal_digit_def)
  have dk: "destKey_of b 50 f = b @ js ''-50x50.'' @ f"
    "destKey_of b 100 f = b @ js ''-100x100.'' @ f"
    "destKey_of b 200 f = b @ js ''-200x200.'' @ f" for b f
    by (simp_all add: destKey_of_def n) (simp_all add: js_def)
  from processRecord_Inr [OF assms] show ?thesis
    unfolding Let_def dk variant_request_def manifest_request_def url_of_def by blast
qed

text \<open>
  Claim C1 on the record \<^verbatim>\<open>vacation.jpg\<close>, with the manifest that is written for it, and
  the JSON text of a list of two entries.
\<close>

theorem manifest_written_witness:
  \<open>processRecord example_services (Some (js ''thumbs'')) (example_record ''vacation.jpg'') []
     = (Inr (), snd (processRecord example_services (Some (js ''thumbs'')) (example_record ''vacation.jpg'') []))
   \<and> decodeKey (object_key (example_record ''vacation.jpg'')) = Inr (js ''vacation.jpg'')
   \<and> last (snd (processRecord example_services (Some (js ''thumbs'')) (example_record ''vacation.jpg'') [])) =
        PutObject
          \<lparr>Bucket = Some (js ''thumbs''),
           Key = js ''vacation.jpg.thumbnails.json'',
           Body = Text (JSON_stringify
             [\<lparr>key = js ''vacation-50x50.jpeg'',
               url = js ''https://thumbs.s3.amazonaws.com/vacation-50x50.jpeg'',
               width = 50, height = 50\<rparr>,
              \<lparr>key = js ''vacation-100x100.jpeg'',
               url = js ''https://thumbs.s3.amazonaws.com/vacation-100x100.jpeg'',
               width = 100, height = 100\<rparr>,
              \<lparr>key = js ''vacation-200x200.jpeg'',
               url = js ''https://thumbs.s3.amazonaws.com/vacation-200x200.jpeg'',
               width = 200, height = 200\<rparr>]),
           ContentType = Some (js ''application/json'')\<rparr>
          None
   \<and> JSON_stringify [\<lparr>key = js ''a-50x50.png'', url = js ''https://t/a-50x50.png'', width = 50, height = 50\<rparr>,
                      \<lparr>key = js ''a-100x100.png'', url = js ''https://t/a-100x100.png'', width = 100, height = 100\<rparr>]
       = js ''[{"key":"a-50x50.png","url":"https://t/a-50x50.png","width":50,"height":50},{"key":"a-100x100.png","url":"https://t/a-100x100.png","width":100,"height":100}]''\<close>
proof -
  let ?run = "processRecord example_services (Some (js ''thumbs'')) (example_record ''vacation.jpg'') []"
  have "fst ?run = Inr ()" by (simp add: run_defs)
  then have h: "?run = (Inr (), snd ?run)" by (metis prod.collapse)
  from manifest_written [OF h] obtain srcKey where
    k: "decodeKey (object_key (example_record ''vacation.jpg'')) = Inr srcKey" by blast
  moreover have "decodeKey (object_key (example_record ''vacation.jpg'')) = Inr (js ''vacation.jpg'')"
    by (simp add: run_defs)
  moreover have \<open>last (snd ?run) =
        PutObject
          \<lparr>Bucket = Some (js ''thumbs''),
           Key = js ''vacation.jpg.thumbnails.json'',
           Body = Text (JSON_stringify
             [\<lparr>key = js ''vacation-50x50.jpeg'',
               url = js ''https://thumbs.s3.amazonaws.com/vacation-50x50.jpeg'',
               width = 50, height = 50\<rparr>,
              \<lparr>key = js ''vacation-100x100.jpeg'',
               url = js ''https://thumbs.s3.amazonaws.com/vacation-100x100.jpeg'',
               width = 100, height = 100\<rparr>,
              \<lparr>key = js ''vacation-200x200.jpeg'',
               url = js ''https://thumbs.s3.amazonaws.com/vacation-200x200.jpeg'',
               width = 200, height = 200\<rparr>]),
           ContentType = Some (js ''application/json'')\<rparr>
          None\<close>
    by (simp add: run_defs)
  moreover have \<open>JSON_stringify [\<lparr>key = js ''a-50x50.png'', url = js ''https://t/a-50x50.png'', width = 50, height = 50\<rparr>,
                      \<lparr>key = js ''a-100x100.png'', url = js ''https://t/a-100x100.png'', width = 100, height = 100\<rparr>]
       = js ''[{"key":"a-50x50.png","url":"https://t/a-50x50.png","width":50,"height":50},{"key":"a-100x100.png","url":"https://t/a-100x100.png","width":100,"height":100}]''\<close>
    by (simp add: json_defs)
  ultimately show ?thesis using h by blast
qed

section \<open>The destination keys\<close>

lemma split_inner_dot:
  "(full_stop \<in> set (butlast (tl s))) = (\<exists>b e. b \<noteq> [] \<and> e \<noteq> [] \<and> s = b @ [full_stop] @ e)"
proof
  assume a: "full_stop \<in> set (butlast (tl s))"
  then obtain c t where s: "s = c # t" by (cases s) auto
  with a have "t \<noteq> []" by auto
  then obtain u l where t: "t = u @ [l]" by (metis rev_exhaust)
  with a s have "full_stop \<in> set u" by simp
  then obtain u1 u2 where "u = u1 @ full_stop # u2" by (meson split_list)
  with s t have "c # u1 \<noteq> [] \<and> u2 @ [l] \<noteq> [] \<and> s = (c # u1) @ [full_stop] @ (u2 @ [l])" by simp
  then show "\<exists>b e. b \<noteq> [] \<and> e \<noteq> [] \<and> s = b @ [full_stop] @ e" by blast
next
  assume "\<exists>b e. b \<noteq> [] \<and> e \<noteq> [] \<and> s = b @ [full_stop] @ e"
  then obtain b e where be: "b \<noteq> []" "e \<noteq> []" "s = b @ [full_stop] @ e" by blast
  then obtain c b' where b: "b = c # b'" by (cases b) auto
  from be obtain e' l where e: "e = e' @ [l]" by (metis rev_exhaust)
  from be b e have "butlast (tl s) = b' @ full_stop # e'"
    by (simp add: butlast_append)
  then show "full_stop \<in> set (butlast (tl s))" by simp
qed

text \<open>
  Claim C3, as amended. For every record and every size of the Size Specification, the
  destination key of the produced variant is \<open>base-{size}x{size}.format\<close>, where \<open>base\<close>
  is the first component that the Key Decoder returns for the decoded source key, and
  \<open>format\<close> is the output format that the encoder chose for that size, not the
  extension of the source key: every write without a content type belongs to a successful
  resize of the record with that key, and every successful resize is followed by such a
  write. The base is everything before the last full stop of the key when the key holds no
  line terminator and that full stop is neither its first nor its last code unit.
\<close>

theorem variant_destination_key:
  assumes "processRecord sv destBucket r tr = (res, tr @ new)"
    and "decodeKey (object_key r) = Inr srcKey"
  shows "(PutObject req out \<in> set new \<and> ContentType req = None \<longrightarrow>
            (\<exists>sz data format body.
               sz \<in> set sizes \<and> Sharp body sz (Inr (data, format)) \<in> set new \<and>
               Key req = fst (pathParts srcKey) @ js ''-'' @ number_to_string sz @ js ''x'' @
                           number_to_string sz @ js ''.'' @ format \<and>
               Body req = Buffer data \<and> Bucket req = destBucket))
       \<and> (Sharp body' sz' (Inr (data', format')) \<in> set new \<longrightarrow>
            sz' \<in> set sizes \<and>
            (\<exists>out'. PutObject
                      \<lparr>Bucket = destBucket,
                       Key = fst (pathParts srcKey) @ js ''-'' @ number_to_string sz' @ js ''x'' @
                               number_to_string sz' @ js ''.'' @ format',
                       Body = Buffer data', ContentType = None\<rparr> out' \<in> set new))
       \<and> (full_stop \<in> set (tl srcKey) \<and> last srcKey \<noteq> full_stop \<and> list_all dot srcKey \<longrightarrow>
            (\<exists>ext. full_stop \<notin> set ext \<and> fst (pathParts srcKey) @ [full_stop] @ ext = srcKey))"
proof -
  have A: "PutObject req out \<in> set new \<and> ContentType req = None \<longrightarrow>
            (\<exists>sz data format body.
               sz \<in> set sizes \<and> Sharp body sz (Inr (data, format)) \<in> set new \<and>
               Key req = fst (pathParts srcKey) @ js ''-'' @ number_to_string sz @ js ''x'' @
                           number_to_string sz @ js ''.'' @ format \<and>
               Body req = Buffer data \<and> Bucket req = destBucket)"
  proof
    assume a: "PutObject req out \<in> set new \<and> ContentType req = None"
    from processRecord_write [OF assms(1)] a assms(2)
    consider sz data fmt body where "sz \<in> set sizes" "Sharp body sz (Inr (data, fmt)) \<in> set new"
        "req = variant_request destBucket (destKey_of (fst (pathParts srcKey)) sz fmt) data"
      | list where "req = manifest_request destBucket srcKey list"
      by fastforce
    then show "\<exists>sz data format body.
                 sz \<in> set sizes \<and> Sharp body sz (Inr (data, format)) \<in> set new \<and>
                 Key req = fst (pathParts srcKey) @ js ''-'' @ number_to_string sz @ js ''x'' @
                             number_to_string sz @ js ''.'' @ format \<and>
                 Body req = Buffer data \<and> Bucket req = destBucket"
    proof cases
      case 1
      then have "sz \<in> set sizes \<and> Sharp body sz (Inr (data, fmt)) \<in> set new \<and>
                 Key req = fst (pathParts srcKey) @ js ''-'' @ number_to_string sz @ js ''x'' @
                             number_to_string sz @ js ''.'' @ fmt \<and>
                 Body req = Buffer data \<and> Bucket req = destBucket"
        by (simp add: variant_request_def destKey_of_sizes)
      then show ?thesis by blast
    next
      case 2
      with a show ?thesis by (simp add: manifest_request_def)
    qed
  qed
  have B: "Sharp body' sz' (Inr (data', format')) \<in> set new \<longrightarrow>
            sz' \<in> set sizes \<and>
            (\<exists>out'. PutObject
                      \<lparr>Bucket = destBucket,
                       Key = fst (pathParts srcKey) @ js ''-'' @ number_to_string sz' @ js ''x'' @
                               number_to_string sz' @ js ''.'' @ format',
                       Body = Buffer data', ContentType = None\<rparr> out' \<in> set new)"
  proof
    assume a: "Sharp body' sz' (Inr (data', format')) \<in> set new"
    from processRecord_resize [OF assms(1) a] assms(2)
    show "sz' \<in> set sizes \<and>
              (\<exists>out'. PutObject
                        \<lparr>Bucket = destBucket,
                         Key = fst (pathParts srcKey) @ js ''-'' @ number_to_string sz' @ js ''x'' @
                                 number_to_string sz' @ js ''.'' @ format',
                         Body = Buffer data', ContentType = None\<rparr> out' \<in> set new)"
      by (auto simp: variant_request_def destKey_of_sizes)
  qed
  have C: "full_stop \<in> set (tl srcKey) \<and> last srcKey \<noteq> full_stop \<and> list_all dot srcKey \<longrightarrow>
            (\<exists>ext. full_stop \<notin> set ext \<and> fst (pathParts srcKey) @ [full_stop] @ ext = srcKey)"
    using pathParts_last_dot by blast
  from A B C show ?thesis by (intro conjI)
qed

text \<open>
  The amended claim C3 on the record \<^verbatim>\<open>photo.final.jpg\<close>: the base is \<^verbatim>\<open>photo.final\<close>
  and the variant of size 100 is written at \<^verbatim>\<open>photo.final-100x100.jpeg\<close>.
\<close>

theorem variant_destination_key_witness:
  "processRecord example_services (Some (js ''thumbs'')) (example_record ''photo.final.jpg'') []
     = (Inr (), [] @ snd (processRecord example_services (Some (js ''thumbs''))
                           (example_record ''photo.final.jpg'') []))
   \<and> decodeKey (object_key (example_record ''photo.final.jpg'')) = Inr (js ''photo.final.jpg'')
   \<and> PutObject \<lparr>Bucket = Some (js ''thumbs''), Key = js ''photo.final-100x100.jpeg'',
                 Body = Buffer [100], ContentType = None\<rparr> None
       \<in> set (snd (processRecord example_services (Some (js ''thumbs''))
                      (example_record ''photo.final.jpg'') []))
   \<and> Sharp (Some [0xFF, 0xD8, 0xFF]) 100 (Inr ([100], js ''jpeg''))
       \<in> set (snd (processRecord example_services (Some (js ''thumbs''))
                      (example_record ''photo.final.jpg'') []))
   \<and> full_stop \<in> set (tl (js ''photo.final.jpg'')) \<and> last (js ''photo.final.jpg'') \<noteq> full_stop
   \<and> list_all dot (js ''photo.final.jpg'')
   \<and> fst (pathParts (js ''photo.final.jpg'')) = js ''photo.final''
   \<and> (\<exists>ext. full_stop \<notin> set ext \<and>
          fst (pathParts (js ''photo.final.jpg'')) @ [full_stop] @ ext = js ''photo.final.jpg'')
   \<and> written_keys (snd (processRecord example_services (Some (js ''thumbs''))
                          (example_record ''photo.final.jpg'') []))
       = [js ''photo.final-50x50.jpeg'', js ''photo.final-100x100.jpeg'',
          js ''photo.final-200x200.jpeg'', js ''photo.final.jpg.thumbnails.json'']"
proof -
  let ?run = "processRecord example_services (Some (js ''thumbs'')) (example_record ''photo.final.jpg'') []"
  let ?k = "js ''photo.final.jpg''"
  have "fst ?run = Inr ()" by (simp add: run_defs)
  then have h: "?run = (Inr (), [] @ snd ?run)" by (metis prod.collapse append_Nil)
  have k: "decodeKey (object_key (example_record ''photo.final.jpg'')) = Inr ?k"
    by (simp add: run_defs)
  have p: "PutObject \<lparr>Bucket = Some (js ''thumbs''), Key = js ''photo.final-100x100.jpeg'',
                 Body = Buffer [100], ContentType = None\<rparr> None \<in> set (snd ?run)"
    by (simp add: run_defs)
  have s: "Sharp (Some [0xFF, 0xD8, 0xFF]) 100 (Inr ([100], js ''jpeg'')) \<in> set (snd ?run)"
    by (simp add: run_defs)
  have d: "full_stop \<in> set (tl ?k) \<and> last ?k \<noteq> full_stop \<and> list_all dot ?k"
    by (simp add: js_def full_stop_def dot_def)
  have b: "fst (pathParts ?k) = js ''photo.final''"
    by (simp add: run_defs)
  have w: "written_keys (snd ?run)
       = [js ''photo.final-50x50.jpeg'', js ''photo.final-100x100.jpeg'',
          js ''photo.final-200x200.jpeg'', js ''photo.final.jpg.thumbnails.json'']"
    by (simp add: run_defs)
  from variant_destination_key [OF h k, of _ _ _ _ _ _] d
  have "\<exists>ext. full_stop \<notin> set ext \<and> fst (pathParts ?k) @ [full_stop] @ ext = ?k"
    by blast
  with h k p s d b w show ?thesis by blast
qed

text \<open>
  Claim C3 as the specification states it fails on the key \<^verbatim>\<open>.jpg\<close>: nothing stands
  before its last full stop, but the Key Decoder returns the key whole, and the variants
  are written at \<^verbatim>\<open>.jpg-50x50.jpeg\<close> and so on, not at \<^verbatim>\<open>-50x50.jpeg\<close>.
\<close>

theorem variant_key_claim_counterexample:
  "decodeKey (object_key (example_record ''.jpg'')) = Inr (js ''.jpg'')
   \<and> js ''.jpg'' = [] @ [full_stop] @ js ''jpg''
   \<and> full_stop \<notin> set (js ''jpg'')
   \<and> written_keys (snd (processRecord example_services (Some (js ''thumbs''))
                          (example_record ''.jpg'') []))
       = [js ''.jpg-50x50.jpeg'', js ''.jpg-100x100.jpeg'', js ''.jpg-200x200.jpeg'',
          js ''.jpg.thumbnails.json'']
   \<and> js ''.jpg-50x50.jpeg'' \<noteq> [] @ js ''-50x50.jpeg''"
  by (simp add: run_defs)

text \<open>
  Claim C10. A string lacks a full stop with something on both sides exactly when no full
  stop stands between its first and its last code unit. For every such string \<open>s\<close> the
  Key Decoder returns \<open>(s, "")\<close>, also when \<open>s\<close> holds a full stop: \<^verbatim>\<open>.hidden\<close> and
  \<^verbatim>\<open>name.\<close> are returned whole. For a record whose decoded key is such a string, the
  whole key is the base of every destination key: every variant is written at
  \<open>s-{size}x{size}.format\<close>.
\<close>

theorem pathParts_whole_key:
  "(full_stop \<in> set (butlast (tl s))) = (\<exists>b e. b \<noteq> [] \<and> e \<noteq> [] \<and> s = b @ [full_stop] @ e)
   \<and> (full_stop \<notin> set (butlast (tl s)) \<longrightarrow> pathParts s = (s, []))
   \<and> pathParts (js ''.hidden'') = (js ''.hidden'', [])
   \<and> pathParts (js ''name.'') = (js ''name.'', [])
   \<and> (full_stop \<notin> set (butlast (tl s)) \<and> decodeKey (object_key r) = Inr s \<and>
       processRecord sv destBucket r tr = (res, tr @ new) \<and>
       PutObject req out \<in> set new \<and> ContentType req = None \<longrightarrow>
         (\<exists>sz format. sz \<in> set sizes \<and>
            Key req = s @ js ''-'' @ number_to_string sz @ js ''x'' @ number_to_string sz @
                        js ''.'' @ format))"
proof -
  have whole: "pathParts s = (s, [])" if "full_stop \<notin> set (butlast (tl s))" for s
  proof (rule pathParts_whole)
    from that show "\<not> (\<exists>b e. b \<noteq> [] \<and> e \<noteq> [] \<and> s = b @ full_stop # e)"
      using split_inner_dot [of s] by simp
  qed
  have A: "full_stop \<notin> set (butlast (tl s)) \<longrightarrow> pathParts s = (s, [])"
    using whole by blast
  have B: "pathParts (js ''.hidden'') = (js ''.hidden'', [])"
    by (rule whole) (simp add: js_def full_stop_def)
  have C: "pathParts (js ''name.'') = (js ''name.'', [])"
    by (rule whole) (simp add: js_def full_stop_def)
  have D: "full_stop \<notin> set (butlast (tl s)) \<and> decodeKey (object_key r) = Inr s \<and>
       processRecord sv destBucket r tr = (res, tr @ new) \<and>
       PutObject req out \<in> set new \<and> ContentType req = None \<longrightarrow>
         (\<exists>sz format. sz \<in> set sizes \<and>
            Key req = s @ js ''-'' @ number_to_string sz @ js ''x'' @ number_to_string sz @
                        js ''.'' @ format)"
  proof
    assume a: "full_stop \<notin> set (butlast (tl s)) \<and> decodeKey (object_key r) = Inr s \<and>
       processRecord sv destBucket r tr = (res, tr @ new) \<and>
       PutObject req out \<in> set new \<and> ContentType req = None"
    then have p: "processRecord sv destBucket r tr = (res, tr @ new)"
      and w: "PutObject req out \<in> set new" by simp_all
    from a whole have base: "fst (pathParts s) = s" by simp
    from a have k: "decodeKey (object_key r) = Inr s" by simp
    from processRecord_write [OF p w] obtain k0 where k0: "decodeKey (object_key r) = Inr k0"
      and alt: "(\<exists>sz data fmt body. sz \<in> set sizes \<and> Sharp body sz (Inr (data, fmt)) \<in> set new \<and>
               req = variant_request destBucket (destKey_of (fst (pathParts k0)) sz fmt) data)
            \<or> (\<exists>list. req = manifest_request destBucket k0 list)"
      by blast
    from k k0 have "k0 = s" by simp
    with alt
    consider sz data fmt where "sz \<in> set sizes"
        "req = variant_request destBucket (destKey_of (fst (pathParts s)) sz fmt) data"
      | list where "req = manifest_request destBucket s list"
      by blast
    then show "\<exists>sz format. sz \<in> set sizes \<and>
            Key req = s @ js ''-'' @ number_to_string sz @ js ''x'' @ number_to_string sz @
                        js ''.'' @ format"
    proof cases
      case 1
      then have "sz \<in> set sizes \<and>
            Key req = s @ js ''-'' @ number_to_string sz @ js ''x'' @ number_to_string sz @
                        js ''.'' @ fmt"
        by (simp add: variant_request_def destKey_of_sizes base)
      then show ?thesis by blast
    next
      case 2
      with a show ?thesis by (simp add: manifest_request_def)
    qed
  qed
  from split_inner_dot [of s] A B C D show ?thesis by (intro conjI)
qed

text \<open>
  Claim C10 on the strings \<^verbatim>\<open>name.\<close> and \<^verbatim>\<open>.hidden\<close> and on the record with the key
  \<^verbatim>\<open>name.\<close>, whose variant of size 200 is written at \<^verbatim>\<open>name.-200x200.jpeg\<close>.
\<close>

theorem pathParts_whole_key_witness:
  "full_stop \<notin> set (butlast (tl (js ''name.'')))
   \<and> pathParts (js ''name.'') = (js ''name.'', [])
   \<and> full_stop \<notin> set (butlast (tl (js ''.hidden'')))
   \<and> pathParts (js ''.hidden'') = (js ''.hidden'', [])
   \<and> decodeKey (object_key (example_record ''name.'')) = Inr (js ''name.'')
   \<and> processRecord example_services (Some (js ''thumbs'')) (example_record ''name.'') []
       = (Inr (), [] @ snd (processRecord example_services (Some (js ''thumbs''))
                             (example_record ''name.'') []))
   \<and> PutObject \<lparr>Bucket = Some (js ''thumbs''), Key = js ''name.-200x200.jpeg'',
                 Body = Buffer [200], ContentType = None\<rparr> None
       \<in> set (snd (processRecord example_services (Some (js ''thumbs'')) (example_record ''name.'') []))
   \<and> ContentType \<lparr>Bucket = Some (js ''thumbs''), Key = js ''name.-200x200.jpeg'',
                    Body = Buffer [200], ContentType = None\<rparr> = None
   \<and> (\<exists>sz format. sz \<in> set sizes \<and>
         Key \<lparr>Bucket = Some (js ''thumbs''), Key = js ''name.-200x200.jpeg'',
              Body = Buffer [200], ContentType = None\<rparr>
           = js ''name.'' @ js ''-'' @ number_to_string sz @ js ''x'' @ number_to_string sz @
               js ''.'' @ format)"
proof -
  let ?d = "Some (js ''thumbs'')"
  let ?r = "example_record ''name.''"
  let ?req = "\<lparr>Bucket = Some (js ''thumbs''), Key = js ''name.-200x200.jpeg'',
                 Body = Buffer [200], ContentType = None\<rparr>"
  define T where "T = snd (processRecord example_services ?d ?r [])"
  have n: "full_stop \<notin> set (butlast (tl (js ''name.'')))" by (simp add: js_def full_stop_def)
  with pathParts_whole_key [where s = "js ''name.''"]
  have pn: "pathParts (js ''name.'') = (js ''name.'', [])" by blast
  have hi: "full_stop \<notin> set (butlast (tl (js ''.hidden'')))" by (simp add: js_def full_stop_def)
  with pathParts_whole_key [where s = "js ''.hidden''"]
  have ph: "pathParts (js ''.hidden'') = (js ''.hidden'', [])" by blast
  have k: "decodeKey (object_key ?r) = Inr (js ''name.'')" by (simp add: run_defs)
  have "fst (processRecord example_services ?d ?r []) = Inr ()" by (simp add: run_defs)
  then have h: "processRecord example_services ?d ?r [] = (Inr (), [] @ T)"
    unfolding T_def by (metis prod.collapse append_Nil)
  have p: "PutObject ?req None \<in> set T" unfolding T_def by (simp add: run_defs)
  have c: "ContentType ?req = None" by simp
  from pathParts_whole_key [where s = "js ''name.''" and r = "?r" and sv = example_services
      and destBucket = "?d" and tr = "[]" and res = "Inr ()" and new = T and req = "?req" and out = None]
    n k h p c
  have e: "\<exists>sz format. sz \<in> set sizes \<and>
         Key ?req = js ''name.'' @ js ''-'' @ number_to_string sz @ js ''x'' @ number_to_string sz @
               js ''.'' @ format"
    by blast
  show ?thesis unfolding T_def [symmetric] by (intro conjI n pn hi ph k h p c e)
qed

section \<open>Errors\<close>

text \<open>
  Claim C4. Every error raised while a record is processed fails the whole invocation.
  A call that fails (fetch, resize or write) is the last event of the trace, and its error
  is the outcome of the invocation: nothing is logged or attempted after it. When the
  records before \<open>r\<close> are processed to their end and \<open>r\<close> fails, the invocation fails
  with the error of \<open>r\<close> and its trace is the trace at that failure: no record after
  \<open>r\<close> is touched. A key that cannot be decoded fails its record with that error before
  any call is made.
\<close>

theorem error_fails_invocation:
  assumes "handler sv destBucket ev = (res, tr)"
  shows "(tr = pre @ x # post \<and> failure x = Some e \<longrightarrow> post = [] \<and> res = Inl e)
       \<and> (Records ev = earlier @ r # later \<and>
          records_loop sv destBucket earlier [LogEvent ev] = (Inr (), tr_before) \<and>
          processRecord sv destBucket r tr_before = (Inl e', tr_failed) \<longrightarrow> res = Inl e' \<and> tr = tr_failed)
       \<and> (decodeKey (object_key r') = Inl e'' \<longrightarrow>
          processRecord sv destBucket r' tr' = (Inl e'', tr'))"
proof -
  from assms have loop: "records_loop sv destBucket (Records ev) [LogEvent ev] = (res, tr)"
    by (simp add: handler_def)
  then obtain new where tr: "tr = [LogEvent ev] @ new" using records_loop_ext by blast
  have A: "tr = pre @ x # post \<and> failure x = Some e \<longrightarrow> post = [] \<and> res = Inl e"
  proof
    assume a: "tr = pre @ x # post \<and> failure x = Some e"
    then have "x \<in> set tr" by simp
    with tr have "x = LogEvent ev \<or> x \<in> set new" by auto
    moreover have "x \<noteq> LogEvent ev" using a by auto
    ultimately have xn: "x \<in> set new" by simp
    note f = records_loop_failures [OF loop [unfolded tr]]
    show "post = [] \<and> res = Inl e"
    proof (cases res)
      case (Inr u)
      with f xn a show ?thesis by auto
    next
      case (Inl e0)
      with f xn a obtain pre0 x0 where n: "new = pre0 @ [x0]"
        "\<forall>y\<in>set pre0. failure y = None" "failure x0 = Some e0"
        by auto
      have "post = [] \<and> x = x0"
      proof (rule failed_call_is_last)
        show "tr = (LogEvent ev # pre0) @ [x0]" using tr n(1) by simp
        show "\<forall>y\<in>set (LogEvent ev # pre0). failure y = None" using n(2) by simp
        show "tr = pre @ x # post" using a by simp
        show "failure x = Some e" using a by simp
      qed
      with a n(3) Inl show ?thesis by simp
    qed
  qed
  have B: "Records ev = earlier @ r # later \<and>
          records_loop sv destBucket earlier [LogEvent ev] = (Inr (), tr_before) \<and>
          processRecord sv destBucket r tr_before = (Inl e', tr_failed) \<longrightarrow> res = Inl e' \<and> tr = tr_failed"
    using loop by (auto simp: records_loop_append)
  have C: "decodeKey (object_key r') = Inl e'' \<longrightarrow>
          processRecord sv destBucket r' tr' = (Inl e'', tr')"
    by (simp add: processRecord_def)
  from A B C show ?thesis by (intro conjI)
qed

text \<open>
  Claim C4 on the batch \<^verbatim>\<open>vacation.jpg\<close>, \<^verbatim>\<open>missing.jpg\<close>, \<^verbatim>\<open>other.png\<close>: the fetch of
  the second record fails, the invocation fails with that error, and the only writes are
  those of the first record. The key \<^verbatim>\<open>%zz.jpg\<close> cannot be decoded.
\<close>

theorem error_fails_invocation_witness:
  "handler example_services (Some (js ''thumbs'')) (example_batch [''vacation.jpg'', ''missing.jpg'', ''other.png''])
     = (Inl (AWSError ''NoSuchKey''),
        snd (records_loop example_services (Some (js ''thumbs'')) [example_record ''vacation.jpg'']
               [LogEvent (example_batch [''vacation.jpg'', ''missing.jpg'', ''other.png''])]) @
        GetObject (js ''pictures'') (js ''missing.jpg'') (Inl (AWSError ''NoSuchKey'')) # [])
   \<and> failure (GetObject (js ''pictures'') (js ''missing.jpg'') (Inl (AWSError ''NoSuchKey'')))
       = Some (AWSError ''NoSuchKey'')
   \<and> written_keys (snd (handler example_services (Some (js ''thumbs''))
                          (example_batch [''vacation.jpg'', ''missing.jpg'', ''other.png''])))
       = [js ''vacation-50x50.jpeg'', js ''vacation-100x100.jpeg'', js ''vacation-200x200.jpeg'',
          js ''vacation.jpg.thumbnails.json'']
   \<and> Records (example_batch [''vacation.jpg'', ''missing.jpg'', ''other.png''])
       = [example_record ''vacation.jpg''] @ example_record ''missing.jpg'' # [example_record ''other.png'']
   \<and> records_loop example_services (Some (js ''thumbs'')) [example_record ''vacation.jpg'']
         [LogEvent (example_batch [''vacation.jpg'', ''missing.jpg'', ''other.png''])]
       = (Inr (),
          snd (records_loop example_services (Some (js ''thumbs'')) [example_record ''vacation.jpg'']
                 [LogEvent (example_batch [''vacation.jpg'', ''missing.jpg'', ''other.png''])]))
   \<and> processRecord example_services (Some (js ''thumbs'')) (example_record ''missing.jpg'')
         (snd (records_loop example_services (Some (js ''thumbs'')) [example_record ''vacation.jpg'']
                 [LogEvent (example_batch [''vacation.jpg'', ''missing.jpg'', ''other.png''])]))
       = (Inl (AWSError ''NoSuchKey''),
          snd (handler example_services (Some (js ''thumbs''))
                 (example_batch [''vacation.jpg'', ''missing.jpg'', ''other.png''])))
   \<and> decodeKey (object_key (example_record ''%zz.jpg'')) = Inl URIError
   \<and> processRecord example_services (Some (js ''thumbs'')) (example_record ''%zz.jpg'') [] = (Inl URIError, [])"
proof -
  let ?ev = "example_batch [''vacation.jpg'', ''missing.jpg'', ''other.png'']"
  let ?d = "Some (js ''thumbs'')"
  let ?x = "GetObject (js ''pictures'') (js ''missing.jpg'') (Inl (AWSError ''NoSuchKey''))"
  define T1 where
    "T1 = snd (records_loop example_services ?d [example_record ''vacation.jpg''] [LogEvent ?ev])"
  have rs: "Records ?ev = [example_record ''vacation.jpg''] @ example_record ''missing.jpg'' #
      [example_record ''other.png'']"
    by (simp add: example_batch_def)
  have "fst (records_loop example_services ?d [example_record ''vacation.jpg''] [LogEvent ?ev]) = Inr ()"
    by (simp add: run_defs)
  then have r1: "records_loop example_services ?d [example_record ''vacation.jpg''] [LogEvent ?ev]
       = (Inr (), T1)"
    unfolding T1_def by (metis prod.collapse)
  have "handler example_services ?d ?ev =
      records_loop example_services ?d
        ([example_record ''vacation.jpg''] @ example_record ''missing.jpg'' # [example_record ''other.png''])
        [LogEvent ?ev]"
    by (simp only: handler_def Let_def rs)
  also have "\<dots> = records_loop example_services ?d
        (example_record ''missing.jpg'' # [example_record ''other.png'']) T1"
    by (simp only: records_loop_append r1 prod.case sum.case)
  also have "\<dots> = (Inl (AWSError ''NoSuchKey''), T1 @ ?x # [])"
    by (simp only: records_loop.simps example_missing prod.case sum.case)
  finally have h: "handler example_services ?d ?ev = (Inl (AWSError ''NoSuchKey''), T1 @ ?x # [])" .
  have r2: "processRecord example_services ?d (example_record ''missing.jpg'') T1
       = (Inl (AWSError ''NoSuchKey''), snd (handler example_services ?d ?ev))"
    by (simp only: h example_missing snd_conv)
  have f: "failure ?x = Some (AWSError ''NoSuchKey'')" by simp
  have "written_keys (T1 @ ?x # []) = [js ''vacation-50x50.jpeg'', js ''vacation-100x100.jpeg'',
      js ''vacation-200x200.jpeg'', js ''vacation.jpg.thumbnails.json'']"
    unfolding T1_def by (simp add: run_defs)
  then have w: "written_keys (snd (handler example_services ?d ?ev)) =
      [js ''vacation-50x50.jpeg'', js ''vacation-100x100.jpeg'',
      js ''vacation-200x200.jpeg'', js ''vacation.jpg.thumbnails.json'']"
    by (simp only: h snd_conv)
  have dz: "decodeKey (object_key (example_record ''%zz.jpg'')) = Inl URIError"
    by (simp add: run_defs)
  note inst = error_fails_invocation [OF h, where pre = "T1" and x = "?x" and post = "[]"
      and e = "AWSError ''NoSuchKey''" and earlier = "[example_record ''vacation.jpg'']"
      and r = "example_record ''missing.jpg''" and later = "[example_record ''other.png'']"
      and tr_before = "T1" and e' = "AWSError ''NoSuchKey''"
      and tr_failed = "snd (handler example_services ?d ?ev)"
      and r' = "example_record ''%zz.jpg''" and e'' = URIError and tr' = "[]"]
  from inst dz have z: "processRecord example_services ?d (example_record ''%zz.jpg'') [] = (Inl URIError, [])"
    by blast
  show ?thesis unfolding T1_def [symmetric] by (intro conjI h f w rs r1 r2 dz z)
qed

text \<open>
  Claim C5. If the fetch of the source object of a record fails, the record fails with
  that error and makes no write at all, neither of a variant nor of the manifest. If the
  write of a variant fails, the record fails with that error, no manifest is written for
  the record, and the failed write is the last event: the variants written before it stay
  in the trace and nothing is attempted after it, so nothing is rolled back.
\<close>

theorem failed_fetch_or_write:
  assumes "processRecord sv destBucket r tr = (res, tr @ new)"
  shows "(GetObject b k (Inl e) \<in> set new \<longrightarrow> res = Inl e \<and> written_keys new = [])
       \<and> (PutObject req (Some e') \<in> set new \<and> ContentType req = None \<longrightarrow>
            res = Inl e' \<and> manifest_writes new = [] \<and>
            (\<exists>before. new = before @ [PutObject req (Some e')]))"
proof -
  have A: "GetObject b k (Inl e) \<in> set new \<longrightarrow> res = Inl e \<and> written_keys new = []"
  proof
    assume a: "GetObject b k (Inl e) \<in> set new"
    from assms show "res = Inl e \<and> written_keys new = []"
    proof (cases rule: processRecord_shape)
      case (decode e0)
      with a show ?thesis by simp
    next
      case (fetch k0 e0)
      with a show ?thesis by simp
    next
      case (loop k0 body e0 n)
      with a sizes_loop_no_fetch [OF loop(3)] show ?thesis by auto
    next
      case (manifest k0 body list n e0)
      with a sizes_loop_no_fetch [OF manifest(3)] show ?thesis by auto
    next
      case (complete k0 body list n)
      with a sizes_loop_no_fetch [OF complete(3)] show ?thesis by auto
    qed
  qed
  have B: "PutObject req (Some e') \<in> set new \<and> ContentType req = None \<longrightarrow>
            res = Inl e' \<and> manifest_writes new = [] \<and>
            (\<exists>before. new = before @ [PutObject req (Some e')])"
  proof
    assume a: "PutObject req (Some e') \<in> set new \<and> ContentType req = None"
    from assms show "res = Inl e' \<and> manifest_writes new = [] \<and>
            (\<exists>before. new = before @ [PutObject req (Some e')])"
    proof (cases rule: processRecord_shape)
      case (decode e0)
      with a show ?thesis by simp
    next
      case (fetch k0 e0)
      with a show ?thesis by simp
    next
      case (loop k0 body e0 n)
      with a have pn: "PutObject req (Some e') \<in> set n" by simp
      from sizes_loop_failures [OF loop(3)] obtain pre0 x0 where n: "n = pre0 @ [x0]"
        "\<forall>y\<in>set pre0. failure y = None" "failure x0 = Some e0" by auto
      from pn n(1,2) have x0: "x0 = PutObject req (Some e')" by auto
      with n(3) have e: "e0 = e'" by simp
      have "ContentType q = None" if "PutObject q o' \<in> set new" for q o'
      proof -
        from that loop(5) have "PutObject q o' \<in> set n" by simp
        from sizes_loop_write [OF loop(3) this] show ?thesis
          by (auto simp: variant_request_def)
      qed
      then have "manifest_writes new = []" by (rule manifest_writes_Nil)
      moreover have "new = (GetObject (bucket_name r) k0 (Inr body) # pre0) @ [PutObject req (Some e')]"
        using loop(5) n(1) x0 by simp
      ultimately show ?thesis using loop(4) e by blast
    next
      case (manifest k0 body list n e0)
      from sizes_loop_failures [OF manifest(3)] have "\<forall>y\<in>set n. failure y = None" by simp
      with a manifest(5) show ?thesis by (auto simp: manifest_request_def)
    next
      case (complete k0 body list n)
      from sizes_loop_failures [OF complete(3)] have "\<forall>y\<in>set n. failure y = None" by simp
      with a complete(5) show ?thesis by (auto simp: manifest_request_def)
    qed
  qed
  from A B show ?thesis by (intro conjI)
qed

text \<open>
  Claim C5 on the record \<^verbatim>\<open>missing.jpg\<close>, whose fetch fails, and on the record
  \<^verbatim>\<open>locked.jpg\<close>, whose second variant cannot be written: the variant of size 50 stays
  written, the manifest is not.
\<close>

theorem failed_fetch_or_write_witness:
  "processRecord example_services (Some (js ''thumbs'')) (example_record ''missing.jpg'') []
     = (Inl (AWSError ''NoSuchKey''),
        [] @ [GetObject (js ''pictures'') (js ''missing.jpg'') (Inl (AWSError ''NoSuchKey''))])
   \<and> GetObject (js ''pictures'') (js ''missing.jpg'') (Inl (AWSError ''NoSuchKey''))
       \<in> set [GetObject (js ''pictures'') (js ''missing.jpg'') (Inl (AWSError ''NoSuchKey''))]
   \<and> written_keys [GetObject (js ''pictures'') (js ''missing.jpg'') (Inl (AWSError ''NoSuchKey''))] = []
   \<and> processRecord example_services (Some (js ''thumbs'')) (example_record ''locked.jpg'') []
       = (Inl (AWSError ''AccessDenied''),
          [] @ snd (processRecord example_services (Some (js ''thumbs'')) (example_record ''locked.jpg'') []))
   \<and> PutObject \<lparr>Bucket = Some (js ''thumbs''), Key = js ''locked-100x100.jpeg'',
                 Body = Buffer [100], ContentType = None\<rparr> (Some (AWSError ''AccessDenied''))
       \<in> set (snd (processRecord example_services (Some (js ''thumbs'')) (example_record ''locked.jpg'') []))
   \<and> ContentType \<lparr>Bucket = Some (js ''thumbs''), Key = js ''locked-100x100.jpeg'',
                    Body = Buffer [100], ContentType = None\<rparr> = None
   \<and> manifest_writes (snd (processRecord example_services (Some (js ''thumbs''))
                             (example_record ''locked.jpg'') [])) = []
   \<and> written_keys (snd (processRecord example_services (Some (js ''thumbs''))
                          (example_record ''locked.jpg'') []))
       = [js ''locked-50x50.jpeg'', js ''locked-100x100.jpeg'']
   \<and> last (snd (processRecord example_services (Some (js ''thumbs'')) (example_record ''locked.jpg'') []))
       = PutObject \<lparr>Bucket = Some (js ''thumbs''), Key = js ''locked-100x100.jpeg'',
                     Body = Buffer [100], ContentType = None\<rparr> (Some (AWSError ''AccessDenied''))"
proof -
  let ?d = "Some (js ''thumbs'')"
  let ?g = "GetObject (js ''pictures'') (js ''missing.jpg'') (Inl (AWSError ''NoSuchKey''))"
  let ?req = "\<lparr>Bucket = Some (js ''thumbs''), Key = js ''locked-100x100.jpeg'',
                 Body = Buffer [100], ContentType = None\<rparr>"
  define T where "T = snd (processRecord example_services ?d (example_record ''locked.jpg'') [])"
  have m: "processRecord example_services ?d (example_record ''missing.jpg'') []
     = (Inl (AWSError ''NoSuchKey''), [] @ [?g])"
    using example_missing [of ?d "[]"] by simp
  have g: "?g \<in> set [?g]" by simp
  from failed_fetch_or_write [OF m, where b = "js ''pictures''" and k = "js ''missing.jpg''"
      and e = "AWSError ''NoSuchKey''"] g
  have wk: "written_keys [?g] = []" by blast
  have "fst (processRecord example_services ?d (example_record ''locked.jpg'') []) = Inl (AWSError ''AccessDenied'')"
    by (simp add: run_defs)
  then have l: "processRecord example_services ?d (example_record ''locked.jpg'') []
       = (Inl (AWSError ''AccessDenied''), [] @ T)"
    unfolding T_def by (metis prod.collapse append_Nil)
  have p: "PutObject ?req (Some (AWSError ''AccessDenied'')) \<in> set T"
    unfolding T_def by (simp add: run_defs)
  have c: "ContentType ?req = None" by simp
  from failed_fetch_or_write [OF l, where req = "?req" and e' = "AWSError ''AccessDenied''"] p c
  have mw: "manifest_writes T = []" by blast
  have w: "written_keys T = [js ''locked-50x50.jpeg'', js ''locked-100x100.jpeg'']"
    unfolding T_def by (simp add: run_defs)
  have la: "last T = PutObject ?req (Some (AWSError ''AccessDenied''))"
    unfolding T_def by (simp add: run_defs)
  show ?thesis unfolding T_def [symmetric] by (intro conjI m g wk l p c mw w la)
qed

section \<open>The destination container\<close>




section \<open>The order of the writes\<close>

text \<open>
  Claim C7. In every invocation the calls that touch the containers are, in this order:
  for the first record of the batch the fetch of its decoded key from its container, the
  write of its variant of size 50, of size 100 and of size 200, and the write of its
  manifest at its key followed by \<^verbatim>\<open>.thumbnails.json\<close>; then the same for the second
  record; and so on in the order of the batch. The trace holds a prefix of that sequence,
  and the whole sequence, five calls for each record, when the invocation succeeds. Every
  call that is not the last event of the trace has completed without error. So the
  variants of one record are written in the order 50, 100, 200, the manifest of that
  record after all three have completed, and the fetch of record \<open>N + 1\<close> comes after
  the write of the manifest of record \<open>N\<close> has completed.
\<close>

theorem writes_in_order:
  assumes "handler sv destBucket ev = (res, tr)"
  shows "prefix (classify destBucket (None, None) tr) (expected_calls (Records ev))
       \<and> (res = Inr () \<longrightarrow>
            classify destBucket (None, None) tr = expected_calls (Records ev) \<and>
            length (expected_calls (Records ev)) = 5 * length (Records ev))
       \<and> (tr = pre @ x # y # post \<longrightarrow> failure x = None)"
proof -
  from assms have loop: "records_loop sv destBucket (Records ev) [LogEvent ev] = (res, tr)"
    by (simp add: handler_def)
  then obtain new where tr: "tr = [LogEvent ev] @ new" using records_loop_ext by blast
  from records_loop_classify [OF loop [unfolded tr], of "(None, None)"] tr
  have A: "prefix (classify destBucket (None, None) tr) (expected_calls (Records ev))"
    and B: "res = Inr () \<longrightarrow>
            classify destBucket (None, None) tr = expected_calls (Records ev) \<and>
            length (expected_calls (Records ev)) = 5 * length (Records ev)"
    by simp_all
  have C: "tr = pre @ x # y # post \<longrightarrow> failure x = None"
  proof
    assume a: "tr = pre @ x # y # post"
    have "(\<forall>z\<in>set tr. failure z = None) \<or>
          (\<exists>pre0 x0. tr = pre0 @ [x0] \<and> (\<forall>z\<in>set pre0. failure z = None))"
    proof (cases "\<forall>z\<in>set new. failure z = None")
      case True
      with tr show ?thesis by simp
    next
      case False
      with records_loop_failures [OF loop [unfolded tr]] obtain pre0 x0 where
        "new = pre0 @ [x0]" "\<forall>z\<in>set pre0. failure z = None"
        by (cases res) auto
      with tr have "tr = (LogEvent ev # pre0) @ [x0] \<and>
          (\<forall>z\<in>set (LogEvent ev # pre0). failure z = None)" by simp
      then show ?thesis by blast
    qed
    from only_last_call_fails [OF this a] show "failure x = None" .
  qed
  from A B C show ?thesis by (intro conjI)
qed

text \<open>
  Claim C7 on a batch of two records that succeeds, with the calls of its trace, and the
  calls of a batch whose second record fails at the write of its second variant.
\<close>

theorem writes_in_order_witness:
  "handler example_services (Some (js ''thumbs'')) (example_batch [''vacation.jpg'', ''photo.final.jpg''])
     = (Inr (), snd (handler example_services (Some (js ''thumbs''))
                       (example_batch [''vacation.jpg'', ''photo.final.jpg''])))
   \<and> expected_calls (Records (example_batch [''vacation.jpg'', ''photo.final.jpg'']))
       = [Fetch (js ''pictures'') (js ''vacation.jpg''),
          Variant 50, Variant 100, Variant 200, Manifest,
          Fetch (js ''pictures'') (js ''photo.final.jpg''),
          Variant 50, Variant 100, Variant 200, Manifest]
   \<and> classify (Some (js ''thumbs'')) (None, None)
        (snd (handler example_services (Some (js ''thumbs''))
                (example_batch [''vacation.jpg'', ''photo.final.jpg''])))
       = [Fetch (js ''pictures'') (js ''vacation.jpg''),
          Variant 50, Variant 100, Variant 200, Manifest,
          Fetch (js ''pictures'') (js ''photo.final.jpg''),
          Variant 50, Variant 100, Variant 200, Manifest]
   \<and> written_keys
        (snd (handler example_services (Some (js ''thumbs''))
                (example_batch [''vacation.jpg'', ''photo.final.jpg''])))
       = [js ''vacation-50x50.jpeg'', js ''vacation-100x100.jpeg'', js ''vacation-200x200.jpeg'',
          js ''vacation.jpg.thumbnails.json'',
          js ''photo.final-50x50.jpeg'', js ''photo.final-100x100.jpeg'',
          js ''photo.final-200x200.jpeg'', js ''photo.final.jpg.thumbnails.json'']
   \<and> snd (handler example_services (Some (js ''thumbs''))
            (example_batch [''vacation.jpg'', ''photo.final.jpg'']))
       = [] @ LogEvent (example_batch [''vacation.jpg'', ''photo.final.jpg'']) #
         GetObject (js ''pictures'') (js ''vacation.jpg'') (Inr (Some [0xFF, 0xD8, 0xFF])) #
         drop 2 (snd (handler example_services (Some (js ''thumbs''))
                        (example_batch [''vacation.jpg'', ''photo.final.jpg''])))
   \<and> failure (LogEvent (example_batch [''vacation.jpg'', ''photo.final.jpg''])) = None
   \<and> classify (Some (js ''thumbs'')) (None, None)
        (snd (handler example_services (Some (js ''thumbs''))
                (example_batch [''vacation.jpg'', ''locked.jpg'', ''other.png''])))
       = [Fetch (js ''pictures'') (js ''vacation.jpg''),
          Variant 50, Variant 100, Variant 200, Manifest,
          Fetch (js ''pictures'') (js ''locked.jpg''), Variant 50, Variant 100]"
proof -
  let ?d = "Some (js ''thumbs'')"
  let ?ev = "example_batch [''vacation.jpg'', ''photo.final.jpg'']"
  let ?calls = "[Fetch (js ''pictures'') (js ''vacation.jpg''),
          Variant 50, Variant 100, Variant 200, Manifest,
          Fetch (js ''pictures'') (js ''photo.final.jpg''),
          Variant 50, Variant 100, Variant 200, Manifest]"
  define T where "T = snd (handler example_services ?d ?ev)"
  have "fst (handler example_services ?d ?ev) = Inr ()"
    by (simp add: run_defs)
  then have h: "handler example_services ?d ?ev = (Inr (), T)"
    unfolding T_def by (metis prod.collapse)
  have x: "expected_calls (Records ?ev) = ?calls"
    by (simp add: run_defs)
  have sp: "T = [] @ LogEvent ?ev #
         GetObject (js ''pictures'') (js ''vacation.jpg'') (Inr (Some [0xFF, 0xD8, 0xFF])) #
         drop 2 T"
    unfolding T_def by (simp add: run_defs)
  note inst = writes_in_order [OF h, where pre = "[]" and x = "LogEvent ?ev"
      and y = "GetObject (js ''pictures'') (js ''vacation.jpg'') (Inr (Some [0xFF, 0xD8, 0xFF]))"
      and post = "drop 2 T"]
  from inst have "classify ?d (None, None) T = expected_calls (Records ?ev)"
    by blast
  with x have c: "classify ?d (None, None) T = ?calls" by simp
  from inst sp have fl: "failure (LogEvent ?ev) = None" by blast
  have w: "written_keys T
       = [js ''vacation-50x50.jpeg'', js ''vacation-100x100.jpeg'', js ''vacation-200x200.jpeg'',
          js ''vacation.jpg.thumbnails.json'',
          js ''photo.final-50x50.jpeg'', js ''photo.final-100x100.jpeg'',
          js ''photo.final-200x200.jpeg'', js ''photo.final.jpg.thumbnails.json'']"
    unfolding T_def by (simp add: run_defs)
  have f: "classify ?d (None, None)
        (snd (handler example_services ?d (example_batch [''vacation.jpg'', ''locked.jpg'', ''other.png''])))
       = [Fetch (js ''pictures'') (js ''vacation.jpg''),
          Variant 50, Variant 100, Variant 200, Manifest,
          Fetch (js ''pictures'') (js ''locked.jpg''), Variant 50, Variant 100]"
    by (simp add: run_defs)
  show ?thesis unfolding T_def [symmetric] by (intro conjI h x c w sp fl f)
qed

section \<open>The key of the fetch\<close>

text \<open>
  Claim C9, as amended. For every raw notification key, the storage key used for the fetch
  is recovered by replacing every plus sign with a space first and percent-decoding the
  result then: when that decoding succeeds with \<open>k\<close>, the first event of the record is the
  fetch of \<open>k\<close> from the container of the record, and every fetch of the record is of
  that key; when it fails, the record fails with that error and makes no call.
\<close>

theorem fetch_key_plus_then_percent:
  assumes "processRecord sv destBucket r tr = (res, tr @ new)"
  shows "(decodeURIComponent (replace_plus (object_key r)) = Inl e \<longrightarrow> res = Inl e \<and> new = [])
       \<and> (decodeURIComponent (replace_plus (object_key r)) = Inr k \<longrightarrow>
            new \<noteq> [] \<and> hd new = GetObject (bucket_name r) k (getObject sv tr (bucket_name r) k))
       \<and> (GetObject b k' out \<in> set new \<longrightarrow>
            b = bucket_name r \<and> decodeURIComponent (replace_plus (object_key r)) = Inr k')"
proof -
  have A: "decodeURIComponent (replace_plus (object_key r)) = Inl e \<longrightarrow> res = Inl e \<and> new = []"
    using assms by (auto simp: processRecord_def decodeKey_def)
  from processRecord_fetch [OF assms, of k b k' out] A show ?thesis
    by (simp add: decodeKey_def)
qed

text \<open>
  The amended claim C9 on the key \<^verbatim>\<open>my+file%20name.jpg\<close>, which is fetched as
  \<^verbatim>\<open>my file name.jpg\<close>, and on the key \<^verbatim>\<open>%zz.jpg\<close>, which cannot be decoded.
\<close>

theorem fetch_key_plus_then_percent_witness:
  "processRecord example_services (Some (js ''thumbs'')) (example_record ''my+file%20name.jpg'') []
     = (Inr (), [] @ snd (processRecord example_services (Some (js ''thumbs''))
                           (example_record ''my+file%20name.jpg'') []))
   \<and> decodeURIComponent (replace_plus (object_key (example_record ''my+file%20name.jpg'')))
       = Inr (js ''my file name.jpg'')
   \<and> hd (snd (processRecord example_services (Some (js ''thumbs''))
                 (example_record ''my+file%20name.jpg'') []))
       = GetObject (js ''pictures'') (js ''my file name.jpg'') (Inr (Some [0xFF, 0xD8, 0xFF]))
   \<and> GetObject (js ''pictures'') (js ''my file name.jpg'') (Inr (Some [0xFF, 0xD8, 0xFF]))
       \<in> set (snd (processRecord example_services (Some (js ''thumbs''))
                      (example_record ''my+file%20name.jpg'') []))
   \<and> decodeURIComponent (replace_plus (object_key (example_record ''%zz.jpg''))) = Inl URIError
   \<and> processRecord example_services (Some (js ''thumbs'')) (example_record ''%zz.jpg'') []
       = (Inl URIError, [] @ [])"
proof -
  let ?d = "Some (js ''thumbs'')"
  let ?r = "example_record ''my+file%20name.jpg''"
  define T where "T = snd (processRecord example_services ?d ?r [])"
  have "fst (processRecord example_services ?d ?r []) = Inr ()" by (simp add: run_defs)
  then have h: "processRecord example_services ?d ?r [] = (Inr (), [] @ T)"
    unfolding T_def by (metis prod.collapse append_Nil)
  have k: "decodeURIComponent (replace_plus (object_key ?r)) = Inr (js ''my file name.jpg'')"
    by (simp add: run_defs)
  have b: "bucket_name ?r = js ''pictures''" by (simp add: example_record_def)
  have g: "getObject example_services [] (js ''pictures'') (js ''my file name.jpg'')
             = Inr (Some [0xFF, 0xD8, 0xFF])"
    by (simp add: example_services_def js_def)
  from fetch_key_plus_then_percent [OF h, where k = "js ''my file name.jpg''"] k
  have hd: "hd T = GetObject (js ''pictures'') (js ''my file name.jpg'') (Inr (Some [0xFF, 0xD8, 0xFF]))"
    unfolding b g by blast
  have m: "GetObject (js ''pictures'') (js ''my file name.jpg'') (Inr (Some [0xFF, 0xD8, 0xFF])) \<in> set T"
    unfolding T_def by (simp add: run_defs)
  have z: "decodeURIComponent (replace_plus (object_key (example_record ''%zz.jpg''))) = Inl URIError"
    by (simp add: run_defs)
  then have pz: "processRecord example_services ?d (example_record ''%zz.jpg'') [] = (Inl URIError, [] @ [])"
    by (simp add: processRecord_def decodeKey_def)
  show ?thesis unfolding T_def [symmetric] by (intro conjI h k hd m z pz)
qed

text \<open>
  Claim C9 as the specification states it fails on the key \<^verbatim>\<open>a%2Bb.jpg\<close>: the handler
  fetches \<^verbatim>\<open>a+b.jpg\<close>, while percent-decoding first and replacing the plus signs then
  gives \<^verbatim>\<open>a b.jpg\<close>.
\<close>

theorem percent_first_claim_counterexample:
  "hd (snd (processRecord example_services (Some (js ''thumbs'')) (example_record ''a%2Bb.jpg'') []))
     = GetObject (js ''pictures'') (js ''a+b.jpg'') (Inr (Some [0xFF, 0xD8, 0xFF]))
   \<and> map_sum id replace_plus (decodeURIComponent (object_key (example_record ''a%2Bb.jpg'')))
       = Inr (js ''a b.jpg'')
   \<and> js ''a+b.jpg'' \<noteq> js ''a b.jpg''"
  by (simp add: run_defs)

end
